theory Spec2Isabelle
  imports Complex_Main "HOL-Library.AList" "HOL-Library.Log_Nat"
begin

section \<open>Past Forward: the generation workflow and the album compositor\<close>

text \<open>
  The application is one React component (\<^verbatim>\<open>App\<close>) whose handlers are asynchronous
  functions running on the single JavaScript thread. The embedding is an event machine:
  the component's state hooks, the effects the handlers have on the outside world
  (calls of \<^verbatim>\<open>generateDecadeImage\<close>, \<^verbatim>\<open>alert\<close>, clicks on download links)
  and the suspended continuations of the asynchronous handlers are fields of one record;
  every event (a user action, or the settlement of a promise some handler awaits) runs its
  handler or continuation up to the next \<^verbatim>\<open>await\<close>. State setters are applied in
  call order, which is the order React applies them in.
\<close>

subsection \<open>Data model\<close>

datatype ImageStatus = Pending | Done | Error

record GeneratedImage =
  status :: ImageStatus
  url :: "string option"
  error :: "string option"

datatype AppState = Idle | ImageUploaded | Generating | ResultsShown

text \<open>A value caught by \<^verbatim>\<open>catch (err)\<close>: an \<^verbatim>\<open>Error\<close> object with its message, or
  anything else.\<close>

datatype thrown = ErrorObj string | NonError

text \<open>The settlement of a promise: \<open>Inl\<close> a rejection, \<open>Inr\<close> the value it resolves to.\<close>

type_synonym 'a settled = "thrown + 'a"

text \<open>A worker of the batch is suspended in \<^verbatim>\<open>await processDecade(decade)\<close>, or has left
  its loop.\<close>

datatype worker = Awaiting string | Finished

text \<open>The closure of one call of \<^verbatim>\<open>handleGenerateClick\<close>: the image it captured, the
  shared queue and the workers.\<close>

record batch =
  image :: string
  decadesQueue :: "string list"
  workers :: "worker list"

text \<open>A call of \<^verbatim>\<open>handleRegenerateDecade\<close> suspended in its \<^verbatim>\<open>await\<close>, or completed.\<close>

datatype regeneration = RegenAwaiting string | RegenSettled

text \<open>A call of \<^verbatim>\<open>handleDownloadAlbum\<close> suspended in \<^verbatim>\<open>await createAlbumPage(imageData)\<close>,
  itself suspended in \<^verbatim>\<open>await Promise.all(...)\<close> over the image loads; or completed.\<close>

datatype album = AlbumLoading "(string \<times> string) list" | AlbumSettled

text \<open>One polaroid drawn on the canvas: the caption, the index in the enumeration order, the
  grid cell, the top-left corner of the card and its size.\<close>

record polaroid =
  caption :: string
  cellIndex :: nat
  cellRow :: nat
  cellCol :: nat
  cardX :: rat
  cardY :: rat
  cardWidth :: rat
  cardHeight :: rat

text \<open>An \<^verbatim>\<open>a\<close> element that was clicked: a generated image (\<^verbatim>\<open>href\<close>, \<^verbatim>\<open>download\<close>), or the
  album page, given by what was drawn on its canvas.\<close>

datatype download = ImageLink string string | AlbumLink "polaroid list" string

record App =
  uploadedImage :: "string option"
  generatedImages :: "(string \<times> GeneratedImage) list"
  isLoading :: bool
  isDownloading :: bool
  appState :: AppState
  requests :: "(string \<times> string) list"
  alerts :: "string list"
  downloads :: "download list"
  batches :: "batch list"
  regenerations :: "regeneration list"
  albums :: "album list"

definition DECADES :: "string list" where
  "DECADES = [''1950s'', ''1960s'', ''1970s'', ''1980s'', ''1990s'', ''2000s'']"

definition initialApp :: App where
  "initialApp = \<lparr>uploadedImage = None, generatedImages = [], isLoading = False,
     isDownloading = False, appState = Idle, requests = [], alerts = [], downloads = [],
     batches = [], regenerations = [], albums = []\<rparr>"

subsection \<open>Per-item processing\<close>

text \<open>JavaScript truthiness of a string, and of a \<^verbatim>\<open>string | null\<close>.\<close>

definition truthy :: "string \<Rightarrow> bool" where
  "truthy s = (s \<noteq> [])"

definition prompt :: "string \<Rightarrow> string" where
  "prompt decade = ''Reimagine the person in this photo in the style of the '' @ decade @
     ''. This includes clothing, hairstyle, photo quality, and the overall aesthetic of that decade. The output must be a photorealistic image showing the person clearly.''"

definition pendingImage :: GeneratedImage where
  "pendingImage = \<lparr>status = Pending, url = None, error = None\<rparr>"

definition doneImage :: "string \<Rightarrow> GeneratedImage" where
  "doneImage resultUrl = \<lparr>status = Done, url = Some resultUrl, error = None\<rparr>"

definition errorImage :: "string \<Rightarrow> GeneratedImage" where
  "errorImage errorMessage = \<lparr>status = Error, url = None, error = Some errorMessage\<rparr>"

definition errorMessage :: "thrown \<Rightarrow> string" where
  "errorMessage err = (case err of ErrorObj message \<Rightarrow> message
     | NonError \<Rightarrow> ''An unknown error occurred.'')"

text \<open>The record written once \<^verbatim>\<open>generateDecadeImage\<close> has settled: the \<^verbatim>\<open>try\<close> branch
  on a resolution, the \<^verbatim>\<open>catch\<close> branch on a rejection.\<close>

definition settledImage :: "string settled \<Rightarrow> GeneratedImage" where
  "settledImage r = (case r of Inr resultUrl \<Rightarrow> doneImage resultUrl
     | Inl err \<Rightarrow> errorImage (errorMessage err))"

text \<open>\<^verbatim>\<open>setGeneratedImages(prev => ({...prev, [decade]: v}))\<close>: an existing key keeps its
  place, a new key goes last.\<close>

definition setDecade :: "string \<Rightarrow> GeneratedImage \<Rightarrow> App \<Rightarrow> App" where
  "setDecade d v s = s\<lparr>generatedImages := AList.update d v (generatedImages s)\<rparr>"

definition callGenerate :: "string \<Rightarrow> string \<Rightarrow> App \<Rightarrow> App" where
  "callGenerate img d s = s\<lparr>requests := requests s @ [(img, prompt d)]\<rparr>"

subsection \<open>The batch: \<^verbatim>\<open>handleGenerateClick\<close>\<close>

text \<open>The worker's \<^verbatim>\<open>while (decadesQueue.length > 0)\<close> loop from its head to the first
  \<^verbatim>\<open>await\<close> or to its exit: the new state of the worker and the queue it leaves.\<close>

fun workerLoop :: "string list \<Rightarrow> worker \<times> string list" where
  "workerLoop [] = (Finished, [])"
| "workerLoop (d # q) = (if truthy d then (Awaiting d, q) else workerLoop q)"

text \<open>A worker of batch \<open>k\<close> runs from the head of its loop: it pops, calls the
  Generation Client and suspends, or finishes. \<open>place\<close> puts the worker's new state into
  the array of workers.\<close>

definition workerTurn :: "nat \<Rightarrow> (worker \<Rightarrow> worker list \<Rightarrow> worker list) \<Rightarrow> App \<Rightarrow> App" where
  "workerTurn k place s =
     (let b = batches s ! k;
          (wk, q) = workerLoop (decadesQueue b);
          b' = b\<lparr>decadesQueue := q, workers := place wk (workers b)\<rparr>;
          s' = s\<lparr>batches := (batches s)[k := b']\<rparr>
      in case wk of Awaiting d \<Rightarrow> callGenerate (image b) d s' | Finished \<Rightarrow> s')"

text \<open>\<^verbatim>\<open>Array(concurrencyLimit).fill(null).map(async () => ...)\<close> calls the worker
  functions one after the other; each runs to its first \<^verbatim>\<open>await\<close> before the next
  starts.\<close>

definition startWorker :: "nat \<Rightarrow> App \<Rightarrow> App" where
  "startWorker k = workerTurn k (\<lambda>wk ws. ws @ [wk])"

definition resumeWorker :: "nat \<Rightarrow> nat \<Rightarrow> App \<Rightarrow> App" where
  "resumeWorker k w = workerTurn k (\<lambda>wk ws. ws[w := wk])"

text \<open>The continuation of \<^verbatim>\<open>await Promise.all(workers)\<close>, which runs once every worker
  has finished.\<close>

definition joinWorkers :: "nat \<Rightarrow> App \<Rightarrow> App" where
  "joinWorkers k s =
     (if list_all (\<lambda>w. w = Finished) (workers (batches s ! k))
      then s\<lparr>isLoading := False, appState := ResultsShown\<rparr> else s)"

definition concurrencyLimit :: nat where
  "concurrencyLimit = 2"

definition initialImages :: "(string \<times> GeneratedImage) list" where
  "initialImages = fold (\<lambda>d acc. AList.update d pendingImage acc) DECADES []"

definition handleGenerateClick :: "App \<Rightarrow> App" where
  "handleGenerateClick s =
     (case uploadedImage s of None \<Rightarrow> s
      | Some img \<Rightarrow>
          if \<not> truthy img then s
          else
            let k = length (batches s);
                s1 = s\<lparr>isLoading := True, appState := Generating,
                       generatedImages := initialImages,
                       batches := batches s @
                         [\<lparr>image = img, decadesQueue = DECADES, workers = []\<rparr>]\<rparr>;
                s2 = (startWorker k ^^ concurrencyLimit) s1
            in joinWorkers k s2)"

text \<open>The promise awaited by worker \<open>w\<close> of batch \<open>k\<close> settles: \<^verbatim>\<open>processDecade\<close> records
  the outcome, the worker goes round its loop, and the batch is joined if that was the
  last worker.\<close>

definition generationSettled :: "nat \<Rightarrow> nat \<Rightarrow> string settled \<Rightarrow> App \<Rightarrow> App" where
  "generationSettled k w r s =
     (if k < length (batches s) \<and> w < length (workers (batches s ! k))
      then (case workers (batches s ! k) ! w of
              Finished \<Rightarrow> s
            | Awaiting d \<Rightarrow> joinWorkers k (resumeWorker k w (setDecade d (settledImage r) s)))
      else s)"

subsection \<open>Single-item regeneration: \<^verbatim>\<open>handleRegenerateDecade\<close>\<close>

definition isPending :: "(string \<times> GeneratedImage) list \<Rightarrow> string \<Rightarrow> bool" where
  "isPending imgs d = (case map_of imgs d of None \<Rightarrow> False | Some g \<Rightarrow> status g = Pending)"

definition handleRegenerateDecade :: "string \<Rightarrow> App \<Rightarrow> App" where
  "handleRegenerateDecade d s =
     (case uploadedImage s of None \<Rightarrow> s
      | Some img \<Rightarrow>
          if \<not> truthy img then s
          else if isPending (generatedImages s) d then s
          else
            let s1 = setDecade d pendingImage s;
                s2 = callGenerate img d s1
            in s2\<lparr>regenerations := regenerations s2 @ [RegenAwaiting d]\<rparr>)"

definition regenerationSettled :: "nat \<Rightarrow> string settled \<Rightarrow> App \<Rightarrow> App" where
  "regenerationSettled j r s =
     (if j < length (regenerations s)
      then (case regenerations s ! j of
              RegenSettled \<Rightarrow> s
            | RegenAwaiting d \<Rightarrow>
                (setDecade d (settledImage r) s)
                  \<lparr>regenerations := (regenerations s)[j := RegenSettled]\<rparr>)
      else s)"

subsection \<open>Upload and reset\<close>

text \<open>\<^verbatim>\<open>reader.onloadend\<close> of \<^verbatim>\<open>handleImageUpload\<close>, with \<^verbatim>\<open>reader.result\<close>.\<close>

definition fileLoaded :: "string option \<Rightarrow> App \<Rightarrow> App" where
  "fileLoaded result s =
     s\<lparr>uploadedImage := result, appState := ImageUploaded, generatedImages := []\<rparr>"

definition handleReset :: "App \<Rightarrow> App" where
  "handleReset s = s\<lparr>uploadedImage := None, generatedImages := [], appState := Idle\<rparr>"

subsection \<open>JavaScript numbers\<close>

text \<open>
  A JavaScript number is an IEEE 754 binary64 value. A finite one is the rational it
  denotes; every arithmetic operation computes the exact result and rounds it to the
  nearest representable value, ties to the even significand (\<open>fl\<close>). Overflow to
  \<^verbatim>\<open>Infinity\<close> is not modelled: the layout below stays under \<open>4000\<close>.
\<close>

definition floorLog2 :: "rat \<Rightarrow> int" where
  "floorLog2 a =
     (let (p, q) = quotient_of a; d = bitlen p - bitlen q
      in if (2::rat) powi d \<le> a then d else d - 1)"

definition roundHalfEven :: "rat \<Rightarrow> int" where
  "roundHalfEven a =
     (let f = \<lfloor>a\<rfloor>; r = a - of_int f
      in if r < 1 / 2 then f else if 1 / 2 < r then f + 1 else if even f then f else f + 1)"

definition fl :: "rat \<Rightarrow> rat" where
  "fl a = (if a = 0 then 0
     else let e = max (floorLog2 \<bar>a\<bar>) (- 1022); u = (2::rat) powi (e - 52)
          in of_int (roundHalfEven (a / u)) * u)"

definition fadd :: "rat \<Rightarrow> rat \<Rightarrow> rat" where
  "fadd a b = fl (a + b)"

definition fsub :: "rat \<Rightarrow> rat \<Rightarrow> rat" where
  "fsub a b = fl (a - b)"

definition fmul :: "rat \<Rightarrow> rat \<Rightarrow> rat" where
  "fmul a b = fl (a * b)"

definition fdiv :: "rat \<Rightarrow> rat \<Rightarrow> rat" where
  "fdiv a b = fl (a / b)"

subsection \<open>The album compositor: \<^verbatim>\<open>createAlbumPage\<close>\<close>

definition canvasWidth :: rat where
  "canvasWidth = 2480"

definition canvasHeight :: rat where
  "canvasHeight = 3508"

definition gridCols :: nat where
  "gridCols = 2"

definition gridRows :: nat where
  "gridRows = 3"

definition gridPadding :: rat where
  "gridPadding = 100"

definition contentTopMargin :: rat where
  "contentTopMargin = 300"

definition contentHeight :: rat where
  "contentHeight = fsub canvasHeight contentTopMargin"

definition cellWidth :: rat where
  "cellWidth =
     fdiv (fsub canvasWidth (fmul gridPadding (fadd (of_nat gridCols) 1))) (of_nat gridCols)"

definition cellHeight :: rat where
  "cellHeight =
     fdiv (fsub contentHeight (fmul gridPadding (fadd (of_nat gridRows) 1))) (of_nat gridRows)"

text \<open>The literals \<^verbatim>\<open>1.2\<close> and \<^verbatim>\<open>0.9\<close> denote the doubles nearest to them.\<close>

definition polaroidAspectRatio :: rat where
  "polaroidAspectRatio = fl (12 / 10)"

definition maxPolaroidWidth :: rat where
  "maxPolaroidWidth = fmul cellWidth (fl (9 / 10))"

definition maxPolaroidHeight :: rat where
  "maxPolaroidHeight = fmul cellHeight (fl (9 / 10))"

text \<open>\<^verbatim>\<open>polaroidWidth\<close> and \<^verbatim>\<open>polaroidHeight\<close> after the \<^verbatim>\<open>if\<close> that may shrink the
  card, as a pair.\<close>

definition polaroidSize :: "rat \<times> rat" where
  "polaroidSize =
     (let w = maxPolaroidWidth; h = fmul w polaroidAspectRatio
      in if maxPolaroidHeight < h
         then (fdiv maxPolaroidHeight polaroidAspectRatio, maxPolaroidHeight)
         else (w, h))"

definition polaroidWidth :: rat where
  "polaroidWidth = fst polaroidSize"

definition polaroidHeight :: rat where
  "polaroidHeight = snd polaroidSize"

text \<open>The body of the \<^verbatim>\<open>forEach\<close> over the reversed images, as far as the placement of
  the card goes: where the context is translated to, and the white frame that
  \<^verbatim>\<open>fillRect\<close> draws there. \<^verbatim>\<open>Math.floor(index / grid.cols)\<close> and \<^verbatim>\<open>index % grid.cols\<close> are exact
  on an array index. The random rotation, the shadow, the fit of the photo inside the
  card and the position of the caption do not enter the placement and are left out.\<close>

definition drawPolaroid :: "nat \<Rightarrow> nat \<Rightarrow> string \<Rightarrow> polaroid" where
  "drawPolaroid n reversedIndex d =
     (let i = n - 1 - reversedIndex;
          r = i div gridCols;
          c = i mod gridCols
      in \<lparr>caption = d, cellIndex = i, cellRow = r, cellCol = c,
          cardX = fadd (fadd (fmul gridPadding (fadd (of_nat c) 1)) (fmul cellWidth (of_nat c)))
                    (fdiv (fsub cellWidth polaroidWidth) 2),
          cardY = fadd (fadd (fadd contentTopMargin (fmul gridPadding (fadd (of_nat r) 1)))
                          (fmul cellHeight (of_nat r)))
                    (fdiv (fsub cellHeight polaroidHeight) 2),
          cardWidth = polaroidWidth, cardHeight = polaroidHeight\<rparr>)"

text \<open>The cards in the order they are drawn: \<^verbatim>\<open>[...imagesWithDecades].reverse().forEach\<close>.\<close>

definition drawPolaroids :: "string list \<Rightarrow> polaroid list" where
  "drawPolaroids decades =
     map (\<lambda>(reversedIndex, d). drawPolaroid (length decades) reversedIndex d)
       (enumerate 0 (rev decades))"

definition loadImage :: "string \<Rightarrow> bool \<Rightarrow> string settled" where
  "loadImage src ok =
     (if ok then Inr src else Inl (ErrorObj (''Failed to load image: '' @ take 50 src @ ''...'')))"

text \<open>\<^verbatim>\<open>Promise.all\<close>: the values in order, or a rejection as soon as one promise rejects
  (here the first in the list; the caller does not look at which).\<close>

fun promiseAll :: "'a settled list \<Rightarrow> 'a list settled" where
  "promiseAll [] = Inr []"
| "promiseAll (Inl err # ps) = Inl err"
| "promiseAll (Inr v # ps) = (case promiseAll ps of Inl err \<Rightarrow> Inl err | Inr vs \<Rightarrow> Inr (v # vs))"

text \<open>\<^verbatim>\<open>createAlbumPage(imageData)\<close>, given what the browser answers: whether
  \<^verbatim>\<open>getContext('2d')\<close> returns a context, and for each value of \<^verbatim>\<open>imageData\<close> whether
  the image loads (\<^verbatim>\<open>onload\<close>) or not (\<^verbatim>\<open>onerror\<close>). The result is the rejection, or the
  page that \<^verbatim>\<open>canvas.toDataURL\<close> encodes, given by the cards drawn on it.\<close>

definition createAlbumPage :: "bool \<Rightarrow> bool list \<Rightarrow> (string \<times> string) list \<Rightarrow> polaroid list settled" where
  "createAlbumPage ctx loads imageData =
     (if \<not> ctx then Inl (ErrorObj ''Could not get 2D canvas context'')
      else case promiseAll (map (\<lambda>(src, ok). loadImage src ok) (zip (map snd imageData) loads)) of
             Inl err \<Rightarrow> Inl err
           | Inr loadedImages \<Rightarrow> Inr (drawPolaroids (map fst imageData)))"

subsection \<open>Downloads: \<^verbatim>\<open>handleDownloadIndividualImage\<close> and \<^verbatim>\<open>handleDownloadAlbum\<close>\<close>

definition doneWithUrl :: "GeneratedImage \<Rightarrow> bool" where
  "doneWithUrl g = (status g = Done \<and> (case url g of None \<Rightarrow> False | Some u \<Rightarrow> truthy u))"

definition handleDownloadIndividualImage :: "string \<Rightarrow> App \<Rightarrow> App" where
  "handleDownloadIndividualImage d s =
     (case map_of (generatedImages s) d of
        None \<Rightarrow> s
      | Some g \<Rightarrow>
          (case url g of
             None \<Rightarrow> s
           | Some u \<Rightarrow>
               if status g = Done \<and> truthy u
               then s\<lparr>downloads := downloads s @ [ImageLink u (''past-forward-'' @ d @ ''.jpg'')]\<rparr>
               else s))"

text \<open>\<^verbatim>\<open>Object.entries(generatedImages).filter(...).reduce(...)\<close>.\<close>

definition albumImageData :: "(string \<times> GeneratedImage) list \<Rightarrow> (string \<times> string) list" where
  "albumImageData imgs =
     fold (\<lambda>(d, g) acc. case url g of None \<Rightarrow> acc | Some u \<Rightarrow> AList.update d u acc)
       (filter (\<lambda>(d, g). doneWithUrl g) imgs) []"

text \<open>The \<^verbatim>\<open>catch\<close> and \<^verbatim>\<open>finally\<close> blocks of \<^verbatim>\<open>handleDownloadAlbum\<close>.\<close>

definition albumFailed :: "App \<Rightarrow> App" where
  "albumFailed s =
     (s\<lparr>alerts := alerts s @ [''Sorry, there was an error creating your album. Please try again.'']\<rparr>)
       \<lparr>isDownloading := False\<rparr>"

text \<open>The handler up to its \<^verbatim>\<open>await\<close>. When \<^verbatim>\<open>createAlbumPage\<close> throws before its own
  \<^verbatim>\<open>await\<close>, the rejection is caught in the same turn.\<close>

definition handleDownloadAlbum :: "bool \<Rightarrow> App \<Rightarrow> App" where
  "handleDownloadAlbum ctx s =
     (let s1 = s\<lparr>isDownloading := True\<rparr>;
          imageData = albumImageData (generatedImages s1)
      in if length imageData < length DECADES
         then (s1\<lparr>alerts := alerts s1 @
                 [''Please wait for all images to finish generating before downloading the album.'']\<rparr>)
                \<lparr>isDownloading := False\<rparr>
         else if \<not> ctx then albumFailed s1
         else s1\<lparr>albums := albums s1 @ [AlbumLoading imageData]\<rparr>)"

text \<open>The image loads of album call \<open>j\<close> have settled: \<^verbatim>\<open>createAlbumPage\<close> returns or
  rejects and \<^verbatim>\<open>handleDownloadAlbum\<close> runs to its end.\<close>

definition imagesSettled :: "nat \<Rightarrow> bool list \<Rightarrow> App \<Rightarrow> App" where
  "imagesSettled j loads s =
     (if j < length (albums s)
      then (case albums s ! j of
              AlbumSettled \<Rightarrow> s
            | AlbumLoading imageData \<Rightarrow>
                if length loads \<noteq> length imageData then s
                else
                  let s1 = s\<lparr>albums := (albums s)[j := AlbumSettled]\<rparr>
                  in (case createAlbumPage True loads imageData of
                        Inl err \<Rightarrow> albumFailed s1
                      | Inr page \<Rightarrow>
                          (s1\<lparr>downloads := downloads s1 @ [AlbumLink page ''past-forward-album.jpg'']\<rparr>)
                            \<lparr>isDownloading := False\<rparr>))
      else s)"

subsection \<open>The event machine\<close>

datatype event =
    FileLoaded "string option"
  | GenerateClick
  | RegenerateDecade string
  | Reset
  | DownloadIndividualImage string
  | DownloadAlbum bool
  | GenerationSettled nat nat "string settled"
  | RegenerationSettled nat "string settled"
  | ImagesSettled nat "bool list"

fun step :: "event \<Rightarrow> App \<Rightarrow> App" where
  "step (FileLoaded result) s = fileLoaded result s"
| "step GenerateClick s = handleGenerateClick s"
| "step (RegenerateDecade d) s = handleRegenerateDecade d s"
| "step Reset s = handleReset s"
| "step (DownloadIndividualImage d) s = handleDownloadIndividualImage d s"
| "step (DownloadAlbum ctx) s = handleDownloadAlbum ctx s"
| "step (GenerationSettled k w r) s = generationSettled k w r s"
| "step (RegenerationSettled j r) s = regenerationSettled j r s"
| "step (ImagesSettled j loads) s = imagesSettled j loads s"

definition run :: "event list \<Rightarrow> App \<Rightarrow> App" where
  "run es s = fold step es s"

subsection \<open>Observations on states and runs\<close>

text \<open>A record in a terminal state: \<open>Done\<close> with an image reference and no message, or
  \<open>Error\<close> with a message and no image reference.\<close>

definition isTerminal :: "GeneratedImage \<Rightarrow> bool" where
  "isTerminal g = (case status g of Pending \<Rightarrow> False
     | Done \<Rightarrow> url g \<noteq> None \<and> error g = None
     | Error \<Rightarrow> error g \<noteq> None \<and> url g = None)"

definition terminalAt :: "(string \<times> GeneratedImage) list \<Rightarrow> string \<Rightarrow> bool" where
  "terminalAt imgs d = (case map_of imgs d of None \<Rightarrow> False | Some g \<Rightarrow> isTerminal g)"

text \<open>The decades a batch is processing: popped from the queue, their outcome not yet
  written.\<close>

definition awaited :: "batch \<Rightarrow> string list" where
  "awaited b = List.map_filter (\<lambda>w. case w of Awaiting d \<Rightarrow> Some d | Finished \<Rightarrow> None) (workers b)"

definition batchFinished :: "nat \<Rightarrow> App \<Rightarrow> bool" where
  "batchFinished k s = list_all (\<lambda>w. w = Finished) (workers (batches s ! k))"

text \<open>A schedule lists, in the order they happen, which worker's pending call settles and
  how. \<open>settlesPending\<close> holds when every entry settles a call that is pending at that
  moment.\<close>

definition settlements :: "nat \<Rightarrow> (nat \<times> string settled) list \<Rightarrow> event list" where
  "settlements k sched = map (\<lambda>(w, r). GenerationSettled k w r) sched"

fun settlesPending :: "nat \<Rightarrow> (nat \<times> string settled) list \<Rightarrow> App \<Rightarrow> bool" where
  "settlesPending k [] s = True"
| "settlesPending k ((w, r) # sched) s =
     (w < length (workers (batches s ! k)) \<and> workers (batches s ! k) ! w \<noteq> Finished
      \<and> settlesPending k sched (generationSettled k w r s))"

text \<open>What is left of a batch: the decades still queued and those being processed.\<close>

definition pendingWork :: "nat \<Rightarrow> App \<Rightarrow> nat" where
  "pendingWork k s = length (decadesQueue (batches s ! k)) + length (awaited (batches s ! k))"

text \<open>The invariant of a running batch. \<open>n\<close> decades have been popped: the queue is the
  rest of \<^verbatim>\<open>DECADES\<close>, the two workers process different popped decades, and a worker has
  finished only when nothing is left. In a run of the batch alone the popped decades are
  exactly the calls made, and every decade is \<open>Pending\<close> until its outcome is written.\<close>

definition workerOk :: "nat \<Rightarrow> worker \<Rightarrow> bool" where
  "workerOk n a = (a = Finished \<or> (\<exists>i<n. a = Awaiting (DECADES ! i)))"

definition batchShape :: "nat \<Rightarrow> batch \<Rightarrow> bool" where
  "batchShape n b \<longleftrightarrow>
     2 \<le> n \<and> n \<le> 6 \<and> decadesQueue b = drop n DECADES \<and>
     (\<exists>a c. workers b = [a, c] \<and> workerOk n a \<and> workerOk n c \<and> (a = c \<longrightarrow> a = Finished)) \<and>
     (Finished \<in> set (workers b) \<longrightarrow> n = 6)"

definition batchInv :: "string \<Rightarrow> (string \<times> string) list \<Rightarrow> nat \<Rightarrow> nat \<Rightarrow> App \<Rightarrow> bool" where
  "batchInv img R0 k n s \<longleftrightarrow>
     k < length (batches s) \<and> batchShape n (batches s ! k) \<and>
     image (batches s ! k) = img \<and>
     requests s = R0 @ map (\<lambda>d. (img, prompt d)) (take n DECADES) \<and>
     map fst (generatedImages s) = DECADES \<and>
     (\<forall>i<6. if n \<le> i \<or> Awaiting (DECADES ! i) \<in> set (workers (batches s ! k))
         then map_of (generatedImages s) (DECADES ! i) = Some pendingImage
         else terminalAt (generatedImages s) (DECADES ! i)) \<and>
     isLoading s = (\<not> batchFinished k s) \<and>
     appState s = (if batchFinished k s then ResultsShown else Generating)"

text \<open>The rectangle of the grid cell in row \<open>r\<close> and column \<open>c\<close>: its left and top edges
  on the canvas, \<^verbatim>\<open>grid.padding * (col + 1) + cellWidth * col\<close> and
  \<^verbatim>\<open>contentTopMargin + grid.padding * (row + 1) + cellHeight * row\<close>; it is \<^verbatim>\<open>cellWidth\<close> wide
  and \<^verbatim>\<open>cellHeight\<close> high. A card lies in the cell when its rectangle is inside the
  cell's.\<close>

definition cellLeft :: "nat \<Rightarrow> rat" where
  "cellLeft c = gridPadding * (of_nat c + 1) + cellWidth * of_nat c"

definition cellTop :: "nat \<Rightarrow> rat" where
  "cellTop r = contentTopMargin + gridPadding * (of_nat r + 1) + cellHeight * of_nat r"

definition cardInCell :: "polaroid \<Rightarrow> nat \<Rightarrow> nat \<Rightarrow> bool" where
  "cardInCell p r c =
     (cellLeft c \<le> cardX p \<and> cardX p + cardWidth p \<le> cellLeft c + cellWidth \<and>
      cellTop r \<le> cardY p \<and> cardY p + cardHeight p \<le> cellTop r + cellHeight)"

subsection \<open>Sample runs\<close>

text \<open>A photo is uploaded and the batch started; six settlements, two of them failures,
  complete it; or six successes do, after which the album is requested. \<open>mixedTrace\<close>
  interleaves the batch with a regeneration, a reset, a new upload and a second batch.\<close>

definition uploaded :: App where
  "uploaded = fileLoaded (Some ''photo'') initialApp"

definition midBatch :: App where
  "midBatch = handleGenerateClick uploaded"

definition sampleSchedule :: "(nat \<times> string settled) list" where
  "sampleSchedule = [(0, Inr ''a''), (1, Inl (ErrorObj ''timeout'')), (0, Inr ''c''),
     (1, Inl NonError), (1, Inr ''e''), (0, Inr ''f'')]"

definition afterBatch :: App where
  "afterBatch = run (settlements 0 sampleSchedule) midBatch"

definition allDoneSchedule :: "(nat \<times> string settled) list" where
  "allDoneSchedule = [(0, Inr ''a''), (1, Inr ''b''), (0, Inr ''c''), (1, Inr ''d''),
     (0, Inr ''e''), (1, Inr ''f'')]"

definition allDone :: App where
  "allDone = run (settlements 0 allDoneSchedule) midBatch"

definition albumRequested :: App where
  "albumRequested = handleDownloadAlbum True allDone"

definition mixedTrace :: "event list" where
  "mixedTrace = [GenerationSettled 0 0 (Inr ''a''), RegenerateDecade ''1950s'', Reset,
     GenerationSettled 0 1 (Inl NonError), FileLoaded (Some ''other''), GenerateClick]"

definition sampleLoads :: "bool list" where
  "sampleLoads = [True, True, False, True, True, True]"

section \<open>Basic facts\<close>

subsection \<open>Runs, the enumeration and the worker loop\<close>

lemma run_Nil: "run [] s = s"
  by (simp add: run_def)

lemma run_Cons: "run (e # es) s = run es (step e s)"
  by (simp add: run_def)

lemma DECADES_truthy: "d \<in> set DECADES \<Longrightarrow> truthy d"
  by (auto simp: DECADES_def truthy_def)

lemma DECADES_distinct: "distinct DECADES"
  by (simp add: DECADES_def)

lemma DECADES_length: "length DECADES = 6"
  by (simp add: DECADES_def)

lemma DECADES_nth_eq: "i < 6 \<Longrightarrow> j < 6 \<Longrightarrow> DECADES ! i = DECADES ! j \<longleftrightarrow> i = j"
  using DECADES_distinct by (simp add: nth_eq_iff_index_eq DECADES_length)

lemma workerLoop_drop:
  "workerLoop (drop n DECADES) =
     (if n < 6 then (Awaiting (DECADES ! n), drop (Suc n) DECADES) else (Finished, []))"
proof (cases "n < 6")
  case True
  then have "drop n DECADES = DECADES ! n # drop (Suc n) DECADES"
    by (simp add: Cons_nth_drop_Suc DECADES_length)
  moreover have "truthy (DECADES ! n)"
    using True by (simp add: DECADES_truthy DECADES_length)
  ultimately show ?thesis using True by simp
next
  case False
  then show ?thesis by (simp add: DECADES_length)
qed

lemma initialImages_eq: "initialImages = map (\<lambda>d. (d, pendingImage)) DECADES"
  by (simp add: initialImages_def DECADES_def)

lemma click_state:
  assumes "uploadedImage s0 = Some img" "truthy img"
  shows "handleGenerateClick s0 =
    s0\<lparr>isLoading := True, appState := Generating,
       generatedImages := map (\<lambda>d. (d, pendingImage)) DECADES,
       batches := batches s0 @ [\<lparr>image = img, decadesQueue = drop 2 DECADES,
             workers = [Awaiting (DECADES ! 0), Awaiting (DECADES ! 1)]\<rparr>],
       requests := requests s0 @ map (\<lambda>d. (img, prompt d)) (take 2 DECADES)\<rparr>"
  using assms
  by (simp add: handleGenerateClick_def concurrencyLimit_def numeral_2_eq_2 startWorker_def
      workerTurn_def joinWorkers_def callGenerate_def initialImages_eq Let_def DECADES_def
      truthy_def)

lemma click_noop:
  "\<not> (\<exists>img. uploadedImage s0 = Some img \<and> truthy img) \<Longrightarrow> handleGenerateClick s0 = s0"
  by (auto simp: handleGenerateClick_def split: option.splits)

subsection \<open>One settlement of a batch call\<close>

lemma not_all_finished_update:
  "w < length ws \<Longrightarrow> \<not> list_all (\<lambda>w. w = Finished) (ws[w := Awaiting d])"
  by (auto simp: list_all_length nth_list_update intro!: exI[of _ w])

lemma settle_effect:
  assumes "k < length (batches s)" "w < length (workers (batches s ! k))"
    "workers (batches s ! k) ! w = Awaiting d"
    "decadesQueue (batches s ! k) = drop n DECADES"
  shows "generationSettled k w r s =
    (if n < 6
     then s\<lparr>generatedImages := AList.update d (settledImage r) (generatedImages s),
            batches := (batches s)[k := (batches s ! k)\<lparr>decadesQueue := drop (Suc n) DECADES,
               workers := (workers (batches s ! k))[w := Awaiting (DECADES ! n)]\<rparr>],
            requests := requests s @ [(image (batches s ! k), prompt (DECADES ! n))]\<rparr>
     else if list_all (\<lambda>w. w = Finished) ((workers (batches s ! k))[w := Finished])
     then s\<lparr>generatedImages := AList.update d (settledImage r) (generatedImages s),
            batches := (batches s)[k := (batches s ! k)\<lparr>decadesQueue := [],
               workers := (workers (batches s ! k))[w := Finished]\<rparr>],
            isLoading := False, appState := ResultsShown\<rparr>
     else s\<lparr>generatedImages := AList.update d (settledImage r) (generatedImages s),
            batches := (batches s)[k := (batches s ! k)\<lparr>decadesQueue := [],
               workers := (workers (batches s ! k))[w := Finished]\<rparr>]\<rparr>)"
  using assms
  by (simp add: generationSettled_def joinWorkers_def resumeWorker_def workerTurn_def
      setDecade_def callGenerate_def workerLoop_drop Let_def not_all_finished_update)

lemma settle_disabled:
  "\<not> (k < length (batches s) \<and> w < length (workers (batches s ! k))
      \<and> workers (batches s ! k) ! w \<noteq> Finished) \<Longrightarrow> generationSettled k w r s = s"
  by (auto simp: generationSettled_def split: worker.splits)

subsection \<open>Events that are not of this batch leave it alone\<close>

lemma settle_other_batch:
  "k \<noteq> k' \<Longrightarrow> batches (generationSettled k' w r s) ! k = batches s ! k"
  by (auto simp: generationSettled_def joinWorkers_def resumeWorker_def workerTurn_def
      setDecade_def callGenerate_def Let_def split: worker.splits prod.splits)

lemma settle_length:
  "length (batches (generationSettled k' w r s)) = length (batches s)"
  by (auto simp: generationSettled_def joinWorkers_def resumeWorker_def workerTurn_def
      setDecade_def callGenerate_def Let_def split: worker.splits prod.splits)

lemma click_batches:
  "k < length (batches s) \<Longrightarrow>
    batches (handleGenerateClick s) ! k = batches s ! k \<and> k < length (batches (handleGenerateClick s))"
proof (cases "\<exists>img. uploadedImage s = Some img \<and> truthy img")
  case True
  then obtain img where "uploadedImage s = Some img" "truthy img" by auto
  from click_state[OF this] show "k < length (batches s) \<Longrightarrow> ?thesis"
    by (simp add: nth_append)
next
  case False
  from click_noop[OF this] show "k < length (batches s) \<Longrightarrow> ?thesis" by simp
qed

lemma step_other:
  assumes "k < length (batches s)" "\<forall>w r. e \<noteq> GenerationSettled k w r"
  shows "batches (step e s) ! k = batches s ! k \<and> k < length (batches (step e s))"
proof (cases e)
  case GenerateClick
  with assms click_batches show ?thesis by simp
next
  case (GenerationSettled k' w r)
  with assms have "k \<noteq> k'" by auto
  with GenerationSettled assms show ?thesis
    by (simp add: settle_other_batch settle_length)
qed (use assms in \<open>auto simp: fileLoaded_def handleReset_def handleRegenerateDecade_def
      setDecade_def callGenerate_def regenerationSettled_def handleDownloadIndividualImage_def
      handleDownloadAlbum_def albumFailed_def imagesSettled_def Let_def
      split: option.splits regeneration.splits album.splits sum.splits\<close>)


subsection \<open>The invariant of a batch\<close>

lemma terminalAt_update:
  "terminalAt (AList.update d v imgs) d' = (if d' = d then isTerminal v else terminalAt imgs d')"
  by (simp add: terminalAt_def AList.update_conv')

lemma isTerminal_settled: "isTerminal (settledImage r)"
  by (cases r) (simp_all add: isTerminal_def settledImage_def doneImage_def errorImage_def)

lemma map_of_const: "d \<in> set ds \<Longrightarrow> map_of (map (\<lambda>d. (d, v)) ds) d = Some v"
  by (induction ds) auto

lemma shape_click:
  "batchShape 2 \<lparr>image = img, decadesQueue = drop 2 DECADES,
      workers = [Awaiting (DECADES ! 0), Awaiting (DECADES ! 1)]\<rparr>"
proof -
  have "workerOk 2 (Awaiting (DECADES ! 0))"
    unfolding workerOk_def by (intro disjI2 exI[of _ 0]) simp
  moreover have "workerOk 2 (Awaiting (DECADES ! 1))"
    unfolding workerOk_def by (intro disjI2 exI[of _ 1]) simp
  moreover have "DECADES ! 0 \<noteq> DECADES ! 1"
    by (simp add: DECADES_nth_eq)
  ultimately show ?thesis
    by (simp add: batchShape_def)
qed

lemma shape_step:
  assumes k: "k < length (batches s)" and S: "batchShape n (batches s ! k)"
    and w: "w < length (workers (batches s ! k))" "workers (batches s ! k) ! w = Awaiting d"
  shows "batchShape (if n < 6 then Suc n else n) (batches (generationSettled k w r s) ! k)"
proof -
  from S have q: "decadesQueue (batches s ! k) = drop n DECADES"
    by (simp add: batchShape_def)
  from S obtain a c where ws: "workers (batches s ! k) = [a, c]"
    and ok: "workerOk n a" "workerOk n c" "a = c \<longrightarrow> a = Finished"
    by (auto simp: batchShape_def)
  from w ws have w01: "w = 0 \<or> w = 1" by auto
  show ?thesis
  proof (cases "n < 6")
    case True
    with S ws ok obtain j1 j2 where "a = Awaiting (DECADES ! j1)" "c = Awaiting (DECADES ! j2)"
      "j1 < n" "j2 < n" "j1 \<noteq> j2"
      by (auto simp: workerOk_def batchShape_def)
    with w01 show ?thesis
      using S True ws k
      by (auto simp: settle_effect[OF k w q] batchShape_def workerOk_def DECADES_nth_eq less_Suc_eq)
  next
    case False
    with w01 show ?thesis
      using S ws k ok
      by (auto simp: settle_effect[OF k w q] batchShape_def workerOk_def DECADES_length)
  qed
qed

lemma shape_awaited:
  assumes "batchShape n b"
  shows "length (awaited b) \<le> 2" "distinct (awaited b)" "set (awaited b) \<subseteq> set (take n DECADES)"
proof -
  from assms obtain a c where ws: "workers b = [a, c]"
    and ok: "workerOk n a" "workerOk n c" "a = c \<longrightarrow> a = Finished" and n: "n \<le> 6"
    by (auto simp: batchShape_def)
  have mem: "DECADES ! i \<in> set (take n DECADES)" if "i < n" for i
  proof -
    from that n have "i < length (take n DECADES)"
      by (simp add: DECADES_length)
    from nth_mem[OF this] that show ?thesis by simp
  qed
  show "length (awaited b) \<le> 2"
    using ws by (cases a; cases c) (simp_all add: awaited_def)
  show "distinct (awaited b)"
    using ws ok by (cases a; cases c) (auto simp: awaited_def)
  show "set (awaited b) \<subseteq> set (take n DECADES)"
    using ws ok mem by (cases a; cases c) (auto simp: awaited_def workerOk_def)
qed

lemma shape_run:
  "k < length (batches s) \<Longrightarrow> batchShape n (batches s ! k) \<Longrightarrow>
    \<exists>n'. k < length (batches (run es s)) \<and> batchShape n' (batches (run es s) ! k)"
proof (induction es arbitrary: n s)
  case Nil
  then show ?case by (auto simp: run_Nil)
next
  case (Cons e es)
  show ?case
  proof (cases "\<exists>w r. e = GenerationSettled k w r")
    case True
    then obtain w r where e: "e = GenerationSettled k w r" by auto
    show ?thesis
    proof (cases "w < length (workers (batches s ! k)) \<and> workers (batches s ! k) ! w \<noteq> Finished")
      case True
      then obtain d where w: "w < length (workers (batches s ! k))"
          "workers (batches s ! k) ! w = Awaiting d"
        by (cases "workers (batches s ! k) ! w") auto
      from shape_step[OF Cons.prems w, of r] Cons.prems(1)
      have "\<exists>n'. k < length (batches (run es (generationSettled k w r s)))
          \<and> batchShape n' (batches (run es (generationSettled k w r s)) ! k)"
        by (intro Cons.IH) (simp_all add: settle_length)
      then show ?thesis by (simp add: e run_Cons)
    next
      case False
      then have "generationSettled k w r s = s"
        by (intro settle_disabled) auto
      with Cons.IH[OF Cons.prems] show ?thesis
        by (simp add: e run_Cons)
    qed
  next
    case False
    with step_other[OF Cons.prems(1), of e] Cons.prems(2)
    have "\<exists>n'. k < length (batches (run es (step e s))) \<and> batchShape n' (batches (run es (step e s)) ! k)"
      by (intro Cons.IH) auto
    then show ?thesis by (simp add: run_Cons)
  qed
qed

lemma inv_click:
  assumes "uploadedImage s0 = Some img" "truthy img"
  shows "batchInv img (requests s0) (length (batches s0)) 2 (handleGenerateClick s0)"
proof -
  have pend: "\<forall>i<6. map_of (map (\<lambda>d. (d, pendingImage)) DECADES) (DECADES ! i) = Some pendingImage"
    by (simp add: map_of_const DECADES_length)
  have ne: "DECADES ! 0 \<noteq> DECADES ! 1"
    by (simp add: DECADES_nth_eq)
  show ?thesis
    unfolding click_state[OF assms] batchInv_def
    using pend ne shape_click[of img]
    by (auto simp: batchFinished_def comp_def not_le dest!: less_2_cases)
qed

lemma inv_step:
  assumes I: "batchInv img R0 k n s"
    and w: "w < length (workers (batches s ! k))" "workers (batches s ! k) ! w = Awaiting d"
  shows "batchInv img R0 k (if n < 6 then Suc n else n) (generationSettled k w r s)"
proof -
  let ?s' = "generationSettled k w r s" and ?n' = "if n < 6 then Suc n else n"
  from I have k: "k < length (batches s)" and S: "batchShape n (batches s ! k)"
    by (simp_all add: batchInv_def)
  from S have q: "decadesQueue (batches s ! k) = drop n DECADES" and n: "2 \<le> n" "n \<le> 6"
    by (simp_all add: batchShape_def)
  from S obtain a c where ws: "workers (batches s ! k) = [a, c]"
    and ok: "workerOk n a" "workerOk n c" "a = c \<longrightarrow> a = Finished"
    by (auto simp: batchShape_def)
  from S have fin: "Finished \<in> set (workers (batches s ! k)) \<longrightarrow> n = 6"
    by (simp add: batchShape_def)
  from I have keys: "map fst (generatedImages s) = DECADES"
    by (simp add: batchInv_def)
  from w ws ok obtain i where i: "i < n" "d = DECADES ! i"
    by (cases w) (auto simp: workerOk_def)
  have dk: "d \<in> set (map fst (generatedImages s))"
    using i n keys by (simp add: DECADES_length)
  from w ws have w01: "w = 0 \<or> w = 1" by auto
  note se = settle_effect[OF k w q, of r]
  have old: "if n \<le> ia \<or> Awaiting (DECADES ! ia) \<in> set [a, c]
      then map_of (generatedImages s) (DECADES ! ia) = Some pendingImage
      else terminalAt (generatedImages s) (DECADES ! ia)" if "ia < 6" for ia
    using I ws that by (simp add: batchInv_def)
  have c1: "k < length (batches ?s')"
    using k by (simp add: settle_length)
  have c2: "batchShape ?n' (batches ?s' ! k)"
    by (rule shape_step[OF k S w])
  have c3: "image (batches ?s' ! k) = img"
    using I k by (simp add: se batchInv_def)
  have c4: "requests ?s' = R0 @ map (\<lambda>d. (img, prompt d)) (take ?n' DECADES)"
    using I n by (simp add: se batchInv_def take_Suc_conv_app_nth DECADES_length)
  have c5: "map fst (generatedImages ?s') = DECADES"
    using keys dk by (simp add: se AList.update_keys)
  have gi: "generatedImages ?s' = AList.update d (settledImage r) (generatedImages s)"
    by (simp add: se)
  have c7: "isLoading ?s' = (\<not> batchFinished k ?s')"
    "appState ?s' = (if batchFinished k ?s' then ResultsShown else Generating)"
  proof -
    have nf: "\<not> batchFinished k s"
      using w by (auto simp: batchFinished_def list_all_length)
    with I have fl: "isLoading s" "appState s = Generating"
      by (simp_all add: batchInv_def)
    show "isLoading ?s' = (\<not> batchFinished k ?s')"
      "appState ?s' = (if batchFinished k ?s' then ResultsShown else Generating)"
      using fl k w by (simp_all add: se batchFinished_def not_all_finished_update)
  qed
  have c6: "\<forall>ia<6. if ?n' \<le> ia \<or> Awaiting (DECADES ! ia) \<in> set (workers (batches ?s' ! k))
         then map_of (generatedImages ?s') (DECADES ! ia) = Some pendingImage
         else terminalAt (generatedImages ?s') (DECADES ! ia)"
  proof (intro allI impI)
    fix ia :: nat
    assume ia: "ia < 6"
    show "if ?n' \<le> ia \<or> Awaiting (DECADES ! ia) \<in> set (workers (batches ?s' ! k))
         then map_of (generatedImages ?s') (DECADES ! ia) = Some pendingImage
         else terminalAt (generatedImages ?s') (DECADES ! ia)"
    proof (cases "n < 6")
      case True
      with fin ws ok obtain j1 j2 where j: "a = Awaiting (DECADES ! j1)"
        "c = Awaiting (DECADES ! j2)" "j1 < n" "j2 < n" "j1 \<noteq> j2"
        by (auto simp: workerOk_def)
      have ws': "workers (batches ?s' ! k) = [a, c][w := Awaiting (DECADES ! n)]"
        using True k ws by (simp add: se)
      from w01 old[OF ia] old[of n] show ?thesis
        using True i j ws w ia n
        by (auto simp: gi ws' AList.update_conv' terminalAt_update isTerminal_settled
            DECADES_nth_eq split: if_splits)
    next
      case False
      with n have n6: "n = 6" by simp
      have ws': "workers (batches ?s' ! k) = [a, c][w := Finished]"
        using n6 k ws by (simp add: se)
      from ok i n6 have "a = Finished \<or> (\<exists>j<6. a = Awaiting (DECADES ! j))"
        "c = Finished \<or> (\<exists>j<6. c = Awaiting (DECADES ! j))"
        by (auto simp: workerOk_def)
      with w01 old[OF ia] show ?thesis
        using n6 i ws w ia ok(3)
        by (auto simp: gi ws' AList.update_conv' terminalAt_update isTerminal_settled
            DECADES_nth_eq split: if_splits)
    qed
  qed
  show ?thesis
    unfolding batchInv_def using c1 c2 c3 c4 c5 c6 c7 by blast
qed


subsection \<open>Runs of a batch and their length\<close>

lemma inv_run:
  "batchInv img R0 k n s \<Longrightarrow> \<exists>n'. batchInv img R0 k n' (run (settlements k sched) s)"
proof (induction sched arbitrary: n s)
  case Nil
  then show ?case by (auto simp: settlements_def run_Nil)
next
  case (Cons a sched)
  obtain w r where a: "a = (w, r)" by (cases a)
  show ?case
  proof (cases "w < length (workers (batches s ! k)) \<and> workers (batches s ! k) ! w \<noteq> Finished")
    case True
    then obtain d where "w < length (workers (batches s ! k))"
        "workers (batches s ! k) ! w = Awaiting d"
      by (cases "workers (batches s ! k) ! w") auto
    from inv_step[OF Cons.prems this, of r]
    have "\<exists>n'. batchInv img R0 k n' (run (settlements k sched) (generationSettled k w r s))"
      by (rule Cons.IH)
    then show ?thesis
      by (simp add: a settlements_def run_Cons)
  next
    case False
    then have "generationSettled k w r s = s"
      by (intro settle_disabled) auto
    with Cons.IH[OF Cons.prems] show ?thesis
      by (simp add: a settlements_def run_Cons)
  qed
qed

lemma work_step:
  assumes I: "batchInv img R0 k n s"
    and w: "w < length (workers (batches s ! k))" "workers (batches s ! k) ! w = Awaiting d"
  shows "Suc (pendingWork k (generationSettled k w r s)) = pendingWork k s"
proof -
  from I have k: "k < length (batches s)" and q: "decadesQueue (batches s ! k) = drop n DECADES"
    and n: "2 \<le> n" "n \<le> 6"
    by (simp_all add: batchInv_def batchShape_def)
  from I obtain a c where ws: "workers (batches s ! k) = [a, c]"
    by (auto simp: batchInv_def batchShape_def)
  from w ws have "w = 0 \<or> w = 1" by auto
  then show ?thesis
    using n ws w k q
    by (cases a; cases c)
      (auto simp: settle_effect[OF k w q] pendingWork_def awaited_def DECADES_length)
qed

lemma work_run:
  "batchInv img R0 k n s \<Longrightarrow> settlesPending k sched s \<Longrightarrow>
    pendingWork k (run (settlements k sched) s) + length sched = pendingWork k s"
proof (induction sched arbitrary: n s)
  case Nil
  then show ?case by (simp add: settlements_def run_Nil)
next
  case (Cons a sched)
  obtain w r where a: "a = (w, r)" by (cases a)
  from Cons.prems(2) a obtain d where w: "w < length (workers (batches s ! k))"
      "workers (batches s ! k) ! w = Awaiting d"
    by (cases "workers (batches s ! k) ! w") auto
  have I': "batchInv img R0 k (if n < 6 then Suc n else n) (generationSettled k w r s)"
    using Cons.prems(1) w by (rule inv_step)
  from Cons.prems(2) a have "settlesPending k sched (generationSettled k w r s)" by simp
  from Cons.IH[OF I' this] work_step[OF Cons.prems(1) w, of r] show ?case
    by (simp add: a settlements_def run_Cons)
qed

lemma inv_finished:
  assumes "batchInv img R0 k n s"
  shows "batchFinished k s \<longleftrightarrow> pendingWork k s = 0"
proof -
  from assms obtain a c where ws: "workers (batches s ! k) = [a, c]"
    by (auto simp: batchInv_def batchShape_def)
  from assms have "Finished \<in> set (workers (batches s ! k)) \<longrightarrow> n = 6"
    and "decadesQueue (batches s ! k) = drop n DECADES"
    by (simp_all add: batchInv_def batchShape_def)
  with ws show ?thesis
    by (cases a; cases c)
      (auto simp: pendingWork_def batchFinished_def awaited_def DECADES_length)
qed

lemma click_work:
  assumes "uploadedImage s0 = Some img" "truthy img"
  shows "pendingWork (length (batches s0)) (handleGenerateClick s0) = 6"
  unfolding click_state[OF assms]
  by (simp add: pendingWork_def awaited_def DECADES_length)

lemma inv_terminal:
  assumes I: "batchInv img R0 k n s" and f: "batchFinished k s" and d: "d \<in> set DECADES"
  shows "terminalAt (generatedImages s) d"
proof -
  from I obtain a c where ws: "workers (batches s ! k) = [a, c]"
    by (auto simp: batchInv_def batchShape_def)
  with f have fin: "a = Finished" "c = Finished"
    by (simp_all add: batchFinished_def)
  with I ws have n: "n = 6"
    by (simp add: batchInv_def batchShape_def)
  from d obtain i where i: "i < 6" "d = DECADES ! i"
    by (auto simp: in_set_conv_nth DECADES_length)
  from I have "\<forall>i<6. if n \<le> i \<or> Awaiting (DECADES ! i) \<in> set (workers (batches s ! k))
         then map_of (generatedImages s) (DECADES ! i) = Some pendingImage
         else terminalAt (generatedImages s) (DECADES ! i)"
    by (simp add: batchInv_def)
  with i n ws fin show ?thesis by auto
qed

lemma inv_progress:
  assumes I: "batchInv img R0 k n s" and f: "\<not> batchFinished k s"
  shows "\<exists>w<concurrencyLimit. \<exists>d. workers (batches s ! k) ! w = Awaiting d"
proof -
  from I obtain a c where ws: "workers (batches s ! k) = [a, c]"
    by (auto simp: batchInv_def batchShape_def)
  with f consider d where "a = Awaiting d" | d where "c = Awaiting d"
    by (cases a; cases c) (auto simp: batchFinished_def)
  then show ?thesis
  proof cases
    case 1
    with ws show ?thesis by (intro exI[of _ 0]) (simp add: concurrencyLimit_def)
  next
    case 2
    with ws show ?thesis by (intro exI[of _ 1]) (simp add: concurrencyLimit_def)
  qed
qed

subsection \<open>The result store\<close>

lemma filter_update_other:
  "filter (\<lambda>p. fst p \<noteq> d) (AList.update d v al) = filter (\<lambda>p. fst p \<noteq> d) al"
  by (induction al) auto

subsection \<open>The album\<close>

lemma length_update_le: "length (AList.update k v al) \<le> Suc (length al)"
  by (induction al) auto

lemma length_fold_update:
  "length (fold (\<lambda>(d, g) acc. case url g of None \<Rightarrow> acc | Some u \<Rightarrow> AList.update d u acc) xs acc)
     \<le> length acc + length xs"
proof (induction xs arbitrary: acc)
  case Nil
  then show ?case by simp
next
  case (Cons p xs)
  obtain d g where p: "p = (d, g)" by (cases p)
  show ?case
  proof (cases "url g")
    case None
    with Cons.IH[of acc] p show ?thesis by simp
  next
    case (Some u)
    with Cons.IH[of "AList.update d u acc"] length_update_le[of d u acc] p show ?thesis by simp
  qed
qed

lemma albumImageData_length:
  "length (albumImageData imgs) \<le> length (filter (\<lambda>(d, g). doneWithUrl g) imgs)"
  using length_fold_update[of "filter (\<lambda>(d, g). doneWithUrl g) imgs" "[]"]
  by (simp add: albumImageData_def)

lemma promiseAll_loads:
  "length srcs = length loads \<Longrightarrow>
    promiseAll (map (\<lambda>(src, ok). loadImage src ok) (zip srcs loads)) =
      (if False \<in> set loads
       then Inl (ErrorObj (''Failed to load image: '' @
               take 50 (srcs ! length (takeWhile (\<lambda>ok. ok) loads)) @ ''...''))
       else Inr srcs)"
proof (induction srcs loads rule: list_induct2)
  case Nil
  then show ?case by simp
next
  case (Cons src srcs ok loads)
  then show ?case by (cases ok) (auto simp: loadImage_def)
qed

lemma createAlbumPage_cases:
  assumes "length loads = length imageData"
  shows "createAlbumPage ctx loads imageData =
     (if \<not> ctx then Inl (ErrorObj ''Could not get 2D canvas context'')
      else if False \<in> set loads
      then Inl (ErrorObj (''Failed to load image: '' @
               take 50 (map snd imageData ! length (takeWhile (\<lambda>ok. ok) loads)) @ ''...''))
      else Inr (drawPolaroids (map fst imageData)))"
  using assms by (simp add: createAlbumPage_def promiseAll_loads)

lemma drawPolaroids_nth:
  assumes "i < length decades"
  shows "drawPolaroids decades ! (length decades - 1 - i) = drawPolaroid (length decades) (length decades - 1 - i) (decades ! i)"
  using assms
  by (simp add: drawPolaroids_def nth_enumerate_eq rev_nth)

lemma drawPolaroids_index:
  "map cellIndex (drawPolaroids decades) = rev [0..<length decades]"
proof (rule nth_equalityI)
  show "length (map cellIndex (drawPolaroids decades)) = length (rev [0..<length decades])"
    by (simp add: drawPolaroids_def)
next
  fix r assume "r < length (map cellIndex (drawPolaroids decades))"
  then have r: "r < length decades" by (simp add: drawPolaroids_def)
  then show "map cellIndex (drawPolaroids decades) ! r = rev [0..<length decades] ! r"
    by (simp add: drawPolaroids_def drawPolaroid_def nth_enumerate_eq rev_nth Let_def)
qed

subsection \<open>The layout in binary64 arithmetic\<close>

text \<open>The rounding function on well-known values: the doubles \<^verbatim>\<open>0.1\<close> and \<^verbatim>\<open>1/3\<close>, the
  sum \<^verbatim>\<open>0.1 + 0.2\<close>, which is \<^verbatim>\<open>0.30000000000000004\<close>, and an integer.\<close>

lemma fl_examples:
  "fl (1 / 10) = 3602879701896397 / 36028797018963968"
  "fl (1 / 3) = 6004799503160661 / 18014398509481984"
  "fadd (fl (1 / 10)) (fl (2 / 10)) = 1351079888211149 / 4503599627370496"
  "fl 702 = 702"
  by code_simp+

lemma cellWidth_eq: "cellWidth = 1090"
  by code_simp

lemma cellHeight_eq: "cellHeight = 936"
  by code_simp

lemma literal_0_9: "fl (9 / 10) = 8106479329266893 / 9007199254740992"
  by code_simp

lemma polaroidAspectRatio_eq: "polaroidAspectRatio = 5404319552844595 / 4503599627370496"
  by code_simp

lemma maxPolaroidWidth_eq: "maxPolaroidWidth = 981"
  unfolding maxPolaroidWidth_def cellWidth_eq literal_0_9 by code_simp

lemma maxPolaroidHeight_eq: "maxPolaroidHeight = 7409828761908019 / 8796093022208"
  unfolding maxPolaroidHeight_def cellHeight_eq literal_0_9 by code_simp

lemma uncapped_height: "fmul 981 (5404319552844595 / 4503599627370496) = 5177380352871629 / 4398046511104"
  by code_simp

lemma capped_width: "fdiv (7409828761908019 / 8796093022208) (5404319552844595 / 4503599627370496) = 702"
  by code_simp

lemma polaroidSize_eq: "polaroidSize = (702, 7409828761908019 / 8796093022208)"
  unfolding polaroidSize_def maxPolaroidWidth_eq maxPolaroidHeight_eq polaroidAspectRatio_eq Let_def
    uncapped_height capped_width
  by simp


lemma polaroidWidth_eq: "polaroidWidth = 702"
  by (simp add: polaroidWidth_def polaroidSize_eq)

lemma polaroidHeight_eq: "polaroidHeight = 7409828761908019 / 8796093022208"
  by (simp add: polaroidHeight_def polaroidSize_eq)

lemma ratio_left: "fmul (5404319552844595 / 4503599627370496) 702 = 7409828761908019 / 8796093022208"
  by code_simp

lemma ratio_right: "fmul 702 (5404319552844595 / 4503599627370496) = 7409828761908019 / 8796093022208"
  by code_simp

lemma nearest_height: "fl (12 / 10 * 702) = 7409828761908019 / 8796093022208"
  by code_simp

lemma max_w: "fmul (8106479329266893 / 9007199254740992) 1090 = 981"
  by code_simp

lemma max_h: "fmul (8106479329266893 / 9007199254740992) 936 = 7409828761908019 / 8796093022208"
  by code_simp

lemma cardX_eq:
  "fadd (fadd (fmul gridPadding (fadd 0 1)) (fmul cellWidth 0)) (fdiv (fsub cellWidth polaroidWidth) 2) = 294"
  "fadd (fadd (fmul gridPadding (fadd 1 1)) (fmul cellWidth 1)) (fdiv (fsub cellWidth polaroidWidth) 2) = 1484"
  unfolding cellWidth_eq polaroidWidth_eq gridPadding_def by code_simp+

lemma cardY_eq:
  "fadd (fadd (fadd contentTopMargin (fmul gridPadding (fadd 0 1))) (fmul cellHeight 0))
     (fdiv (fsub cellHeight polaroidHeight) 2) = 7860188724645069 / 17592186044416"
  "fadd (fadd (fadd contentTopMargin (fmul gridPadding (fadd 1 1))) (fmul cellHeight 1))
     (fdiv (fsub cellHeight polaroidHeight) 2) = 6521423366665011 / 4398046511104"
  "fadd (fadd (fadd contentTopMargin (fmul gridPadding (fadd 2 1))) (fmul cellHeight 2))
     (fdiv (fsub cellHeight polaroidHeight) 2) = 2769449888042189 / 1099511627776"
  unfolding cellHeight_eq polaroidHeight_eq gridPadding_def contentTopMargin_def by code_simp+

lemma cellLeft_eq: "cellLeft 0 = 100" "cellLeft 1 = 1290"
  by (simp_all add: cellLeft_def gridPadding_def cellWidth_eq)

lemma cellTop_eq: "cellTop 0 = 400" "cellTop 1 = 1436" "cellTop 2 = 2472"
  by (simp_all add: cellTop_def gridPadding_def contentTopMargin_def cellHeight_eq)

lemma centred_y:
  "fl (400 + (936 - 7409828761908019 / 8796093022208) / 2) = 7860188724645069 / 17592186044416"
  "fl (1436 + (936 - 7409828761908019 / 8796093022208) / 2) = 6521423366665011 / 4398046511104"
  "fl (2472 + (936 - 7409828761908019 / 8796093022208) / 2) = 2769449888042189 / 1099511627776"
  by code_simp+

lemma cardX_col:
  assumes "c < 2"
  shows "fadd (fadd (fmul gridPadding (fadd (of_nat c) 1)) (fmul cellWidth (of_nat c)))
      (fdiv (fsub cellWidth polaroidWidth) 2) = cellLeft c + (cellWidth - polaroidWidth) / 2"
proof -
  have r: "cellLeft 0 + (cellWidth - polaroidWidth) / 2 = 294"
    "cellLeft 1 + (cellWidth - polaroidWidth) / 2 = 1484"
    unfolding cellLeft_eq cellWidth_eq polaroidWidth_eq by simp_all
  from assms consider "c = 0" | "c = 1" by arith
  then show ?thesis
  proof cases
    case 1
    show ?thesis by (simp only: 1 of_nat_0 cardX_eq r)
  next
    case 2
    show ?thesis by (simp only: 2 of_nat_1 cardX_eq r)
  qed
qed

lemma centred_rows:
  "fl (cellTop 0 + (cellHeight - polaroidHeight) / 2) = 7860188724645069 / 17592186044416"
  "fl (cellTop 1 + (cellHeight - polaroidHeight) / 2) = 6521423366665011 / 4398046511104"
  "fl (cellTop 2 + (cellHeight - polaroidHeight) / 2) = 2769449888042189 / 1099511627776"
  unfolding cellTop_eq cellHeight_eq polaroidHeight_eq by (rule centred_y)+

lemma rows_inside:
  "cellTop 0 \<le> fl (cellTop 0 + (cellHeight - polaroidHeight) / 2)"
  "cellTop 1 \<le> fl (cellTop 1 + (cellHeight - polaroidHeight) / 2)"
  "cellTop 2 \<le> fl (cellTop 2 + (cellHeight - polaroidHeight) / 2)"
  "fl (cellTop 0 + (cellHeight - polaroidHeight) / 2) + polaroidHeight \<le> cellTop 0 + cellHeight"
  "fl (cellTop 1 + (cellHeight - polaroidHeight) / 2) + polaroidHeight \<le> cellTop 1 + cellHeight"
  "fl (cellTop 2 + (cellHeight - polaroidHeight) / 2) + polaroidHeight \<le> cellTop 2 + cellHeight"
  unfolding centred_rows unfolding cellTop_eq cellHeight_eq polaroidHeight_eq by simp_all

lemma cardY_row:
  assumes "r < 3"
  shows "fadd (fadd (fadd contentTopMargin (fmul gridPadding (fadd (of_nat r) 1)))
        (fmul cellHeight (of_nat r))) (fdiv (fsub cellHeight polaroidHeight) 2)
      = fl (cellTop r + (cellHeight - polaroidHeight) / 2)
    \<and> cellTop r \<le> fl (cellTop r + (cellHeight - polaroidHeight) / 2)
    \<and> fl (cellTop r + (cellHeight - polaroidHeight) / 2) + polaroidHeight \<le> cellTop r + cellHeight"
proof -
  from assms consider "r = 0" | "r = 1" | "r = 2" by arith
  then show ?thesis
  proof cases
    case 1
    show ?thesis
      unfolding 1 of_nat_0 cardY_eq using rows_inside(1,4) by (simp only: centred_rows simp_thms)
  next
    case 2
    show ?thesis
      unfolding 2 of_nat_1 cardY_eq using rows_inside(2,5) by (simp only: centred_rows simp_thms)
  next
    case 3
    show ?thesis
      unfolding 3 of_nat_numeral cardY_eq using rows_inside(3,6) by (simp only: centred_rows simp_thms)
  qed
qed

lemma drawPolaroid_x:
  "cardX (drawPolaroid n ri d) = cellLeft ((n - 1 - ri) mod 2) + (cellWidth - polaroidWidth) / 2"
  by (simp add: drawPolaroid_def Let_def gridCols_def cardX_col)

lemma drawPolaroid_y:
  assumes "(n - 1 - ri) div 2 < 3"
  shows "cardY (drawPolaroid n ri d) =
     fl (cellTop ((n - 1 - ri) div 2) + (cellHeight - polaroidHeight) / 2)"
  using assms by (simp add: drawPolaroid_def Let_def gridCols_def cardY_row)

lemma drawPolaroid_in_cell:
  assumes "(n - 1 - ri) div 2 < 3"
  shows "cardInCell (drawPolaroid n ri d) ((n - 1 - ri) div 2) ((n - 1 - ri) mod 2)"
proof -
  have w: "cardWidth (drawPolaroid n ri d) = polaroidWidth"
    "cardHeight (drawPolaroid n ri d) = polaroidHeight"
    by (simp_all add: drawPolaroid_def Let_def)
  have "cellLeft ((n - 1 - ri) mod 2) \<le> cardX (drawPolaroid n ri d)"
    "cardX (drawPolaroid n ri d) + polaroidWidth \<le> cellLeft ((n - 1 - ri) mod 2) + cellWidth"
    by (simp_all add: drawPolaroid_x cellWidth_eq polaroidWidth_eq)
  with cardY_row[OF assms] drawPolaroid_y[OF assms, of d] w show ?thesis
    by (simp add: cardInCell_def)
qed

lemma layout_DECADES:
  "drawPolaroids DECADES =
    [\<lparr>caption = ''2000s'', cellIndex = 5, cellRow = 2, cellCol = 1, cardX = 1484,
       cardY = 2769449888042189 / 1099511627776,
       cardWidth = 702, cardHeight = 7409828761908019 / 8796093022208\<rparr>,
     \<lparr>caption = ''1990s'', cellIndex = 4, cellRow = 2, cellCol = 0, cardX = 294,
       cardY = 2769449888042189 / 1099511627776,
       cardWidth = 702, cardHeight = 7409828761908019 / 8796093022208\<rparr>,
     \<lparr>caption = ''1980s'', cellIndex = 3, cellRow = 1, cellCol = 1, cardX = 1484,
       cardY = 6521423366665011 / 4398046511104,
       cardWidth = 702, cardHeight = 7409828761908019 / 8796093022208\<rparr>,
     \<lparr>caption = ''1970s'', cellIndex = 2, cellRow = 1, cellCol = 0, cardX = 294,
       cardY = 6521423366665011 / 4398046511104,
       cardWidth = 702, cardHeight = 7409828761908019 / 8796093022208\<rparr>,
     \<lparr>caption = ''1960s'', cellIndex = 1, cellRow = 0, cellCol = 1, cardX = 1484,
       cardY = 7860188724645069 / 17592186044416,
       cardWidth = 702, cardHeight = 7409828761908019 / 8796093022208\<rparr>,
     \<lparr>caption = ''1950s'', cellIndex = 0, cellRow = 0, cellCol = 0, cardX = 294,
       cardY = 7860188724645069 / 17592186044416,
       cardWidth = 702, cardHeight = 7409828761908019 / 8796093022208\<rparr>]"
  apply (simp add: drawPolaroids_def drawPolaroid_def DECADES_def enumerate_eq_zip upt_rec[of 0]
      upt_rec[of 1] upt_rec[of 2] upt_rec[of 3] upt_rec[of 4] upt_rec[of 5] gridCols_def
      cardX_eq cardY_eq Let_def)
  apply (simp add: polaroidWidth_eq polaroidHeight_eq)
  done

subsection \<open>The sample runs, evaluated\<close>

lemma uploaded_image: "uploadedImage uploaded = Some ''photo''"
  by (simp add: uploaded_def fileLoaded_def)

lemma uploaded_batches: "batches uploaded = []"
  by (simp add: uploaded_def fileLoaded_def initialApp_def)

lemma truthy_photo: "truthy ''photo''"
  by (simp add: truthy_def)

lemma midBatch_eq:
  "midBatch = \<lparr>uploadedImage = Some ''photo'',
      generatedImages = map (\<lambda>d. (d, pendingImage)) DECADES,
      isLoading = True, isDownloading = False, appState = Generating,
      requests = [(''photo'', prompt ''1950s''), (''photo'', prompt ''1960s'')],
      alerts = [], downloads = [],
      batches = [\<lparr>image = ''photo'', decadesQueue = [''1970s'', ''1980s'', ''1990s'', ''2000s''],
         workers = [Awaiting ''1950s'', Awaiting ''1960s'']\<rparr>],
      regenerations = [], albums = []\<rparr>"
  unfolding midBatch_def click_state[OF uploaded_image truthy_photo]
  by (simp add: uploaded_def fileLoaded_def initialApp_def DECADES_def)

lemma afterBatch_eq:
  "afterBatch = \<lparr>uploadedImage = Some ''photo'',
      generatedImages = [(''1950s'', doneImage ''a''), (''1960s'', errorImage ''timeout''),
        (''1970s'', doneImage ''c''), (''1980s'', errorImage ''An unknown error occurred.''),
        (''1990s'', doneImage ''f''), (''2000s'', doneImage ''e'')],
      isLoading = False, isDownloading = False, appState = ResultsShown,
      requests = map (\<lambda>d. (''photo'', prompt d)) DECADES,
      alerts = [], downloads = [],
      batches = [\<lparr>image = ''photo'', decadesQueue = [], workers = [Finished, Finished]\<rparr>],
      regenerations = [], albums = []\<rparr>"
  unfolding afterBatch_def midBatch_eq
  by (simp add: sampleSchedule_def settlements_def run_def generationSettled_def joinWorkers_def
      resumeWorker_def workerTurn_def setDecade_def callGenerate_def settledImage_def
      errorMessage_def truthy_def DECADES_def Let_def)


lemma run_midBatch:
  "run (FileLoaded (Some ''photo'') # GenerateClick # es) initialApp = run es midBatch"
  by (simp add: run_Cons midBatch_def uploaded_def)

lemma allDone_eq:
  "allDone = \<lparr>uploadedImage = Some ''photo'',
      generatedImages = [(''1950s'', doneImage ''a''), (''1960s'', doneImage ''b''),
        (''1970s'', doneImage ''c''), (''1980s'', doneImage ''d''),
        (''1990s'', doneImage ''e''), (''2000s'', doneImage ''f'')],
      isLoading = False, isDownloading = False, appState = ResultsShown,
      requests = map (\<lambda>d. (''photo'', prompt d)) DECADES,
      alerts = [], downloads = [],
      batches = [\<lparr>image = ''photo'', decadesQueue = [], workers = [Finished, Finished]\<rparr>],
      regenerations = [], albums = []\<rparr>"
  unfolding allDone_def midBatch_eq
  by (simp add: allDoneSchedule_def settlements_def run_def generationSettled_def joinWorkers_def
      resumeWorker_def workerTurn_def setDecade_def callGenerate_def settledImage_def
      truthy_def DECADES_def Let_def)

lemma albumRequested_eq:
  "albumRequested = allDone\<lparr>isDownloading := True,
      albums := [AlbumLoading [(''1950s'', ''a''), (''1960s'', ''b''), (''1970s'', ''c''),
         (''1980s'', ''d''), (''1990s'', ''e''), (''2000s'', ''f'')]]\<rparr>"
  unfolding albumRequested_def allDone_eq
  by (simp add: handleDownloadAlbum_def albumImageData_def doneWithUrl_def doneImage_def
      truthy_def DECADES_def Let_def)

section \<open>Reset during a batch\<close>

text \<open>Claim C1, as the code has it: when \<^verbatim>\<open>handleReset\<close> runs while worker \<open>w\<close> of batch
  \<open>k\<close> awaits the generation call for decade \<open>d\<close>, the result store is cleared at once;
  nothing cancels the call or detaches its continuation, so when the call later settles,
  \<^verbatim>\<open>processDecade\<close> writes the outcome into the latest store, which then holds exactly
  the entry of \<open>d\<close>: \<open>Done\<close> with the image on success, \<open>Error\<close> with the message on
  failure.\<close>

theorem reset_then_settlement:
  assumes "k < length (batches s)" and "w < length (workers (batches s ! k))"
    and "workers (batches s ! k) ! w = Awaiting d"
  shows "generatedImages (handleReset s) = []
    \<and> generatedImages (run [Reset, GenerationSettled k w r] s) = [(d, settledImage r)]"
  using assms
  by (simp add: run_def handleReset_def generationSettled_def joinWorkers_def resumeWorker_def
      workerTurn_def setDecade_def callGenerate_def Let_def split: prod.splits worker.splits)

theorem reset_then_settlement_witness:
  "(0::nat) < length (batches midBatch) \<and> (1::nat) < length (workers (batches midBatch ! 0))
   \<and> workers (batches midBatch ! 0) ! 1 = Awaiting ''1960s''
   \<and> generatedImages (handleReset midBatch) = []
   \<and> generatedImages (run [Reset, GenerationSettled 0 1 (Inl (ErrorObj ''timeout''))] midBatch)
       = [(''1960s'', \<lparr>status = Error, url = None, error = Some ''timeout''\<rparr>)]"
proof -
  have a: "(0::nat) < length (batches midBatch)"
    and b: "(1::nat) < length (workers (batches midBatch ! 0))"
    and c: "workers (batches midBatch ! 0) ! 1 = Awaiting ''1960s''"
    by (simp_all add: midBatch_eq)
  from reset_then_settlement[OF a b c, of "Inl (ErrorObj ''timeout'')"] a b c show ?thesis
    by (simp add: settledImage_def errorImage_def errorMessage_def)
qed

text \<open>The claim as the specification words it fails: a photo is uploaded and the batch
  started, so that the call for the 1950s is in flight; \<^verbatim>\<open>handleReset\<close> runs and the store
  is empty; the call then resolves with image \<open>a\<close> (or rejects with \<open>timeout\<close>), and the
  key \<open>1950s\<close> is back in the store.\<close>

theorem reset_settlement_reappears:
  "workers (batches (run [FileLoaded (Some ''photo''), GenerateClick] initialApp) ! 0) ! 0
       = Awaiting ''1950s''
   \<and> map_of (generatedImages
         (run [FileLoaded (Some ''photo''), GenerateClick, Reset] initialApp)) ''1950s'' = None
   \<and> map_of (generatedImages
         (run [FileLoaded (Some ''photo''), GenerateClick, Reset,
               GenerationSettled 0 0 (Inr ''a'')] initialApp)) ''1950s''
       = Some \<lparr>status = Done, url = Some ''a'', error = None\<rparr>
   \<and> map_of (generatedImages
         (run [FileLoaded (Some ''photo''), GenerateClick, Reset,
               GenerationSettled 0 0 (Inl (ErrorObj ''timeout''))] initialApp)) ''1950s''
       = Some \<lparr>status = Error, url = None, error = Some ''timeout''\<rparr>"
  unfolding run_midBatch midBatch_eq
  by (simp add: run_def handleReset_def generationSettled_def joinWorkers_def resumeWorker_def
      workerTurn_def setDecade_def callGenerate_def settledImage_def doneImage_def errorImage_def
      errorMessage_def truthy_def Let_def)

text \<open>The buttons that call \<^verbatim>\<open>handleReset\<close> are rendered in the states \<^verbatim>\<open>image-uploaded\<close>
  and \<^verbatim>\<open>results-shown\<close>. A batch is in flight in the first of them when the
  \<^verbatim>\<open>FileReader\<close> of a second file chosen on the start screen finishes only after the batch
  has been started; reset is then one click away, and the settlement brings the key back all
  the same.\<close>

lemma reset_on_screen_example:
  "appState (run [FileLoaded (Some ''photo''), GenerateClick, FileLoaded (Some ''other'')]
       initialApp) = ImageUploaded
   \<and> workers (batches (run [FileLoaded (Some ''photo''), GenerateClick,
         FileLoaded (Some ''other'')] initialApp) ! 0) ! 0 = Awaiting ''1950s''
   \<and> generatedImages (run [FileLoaded (Some ''photo''), GenerateClick,
         FileLoaded (Some ''other''), Reset, GenerationSettled 0 0 (Inr ''a'')] initialApp)
       = [(''1950s'', doneImage ''a'')]"
  unfolding run_midBatch midBatch_eq
  by (simp add: run_def fileLoaded_def handleReset_def generationSettled_def joinWorkers_def
      resumeWorker_def workerTurn_def setDecade_def callGenerate_def settledImage_def
      truthy_def Let_def)

section \<open>The batch run\<close>

text \<open>Claim C2: right after \<^verbatim>\<open>handleGenerateClick\<close> has dispatched the batch, every decade
  of \<^verbatim>\<open>DECADES\<close> is \<open>Pending\<close>. In a run of the batch (any schedule of settlements of its
  calls, successes and failures alike, with no other handler in between): once all workers
  have finished, every decade is in a terminal state, \<open>Done\<close> with an image or \<open>Error\<close>
  with a message, and the handler has cleared \<^verbatim>\<open>isLoading\<close> and shown the results; until
  then some worker has a call pending; and when each settlement of the schedule answers a
  pending call, there are at most six of them and the sixth finishes the batch, whatever
  the outcomes were. The continuation of \<^verbatim>\<open>await Promise.all(workers)\<close> runs when all
  workers have finished and not before: at dispatch, and at every moment of the run,
  \<^verbatim>\<open>isLoading\<close> is true and the app state is \<^verbatim>\<open>generating\<close> exactly as long as some worker
  has not finished, and the app state is \<^verbatim>\<open>results-shown\<close> exactly from then on.\<close>

theorem batch_all_terminal:
  assumes "uploadedImage s0 = Some img" and "truthy img"
  shows "let k = length (batches s0); s1 = handleGenerateClick s0;
             s = run (settlements k sched) s1
         in (\<forall>d\<in>set DECADES. map_of (generatedImages s1) d = Some pendingImage) \<and>
            (batchFinished k s \<longrightarrow>
               (\<forall>d\<in>set DECADES. terminalAt (generatedImages s) d) \<and>
               \<not> isLoading s \<and> appState s = ResultsShown) \<and>
            (\<not> batchFinished k s \<longrightarrow>
               (\<exists>w<concurrencyLimit. \<exists>d. workers (batches s ! k) ! w = Awaiting d)) \<and>
            (settlesPending k sched s1 \<longrightarrow>
               length sched \<le> length DECADES \<and>
               (length sched = length DECADES \<longleftrightarrow> batchFinished k s)) \<and>
            \<not> batchFinished k s1 \<and> isLoading s1 \<and> appState s1 = Generating \<and>
            isLoading s = (\<not> batchFinished k s) \<and>
            (appState s = ResultsShown \<longleftrightarrow> batchFinished k s) \<and>
            appState s = (if batchFinished k s then ResultsShown else Generating)"
proof -
  let ?k = "length (batches s0)" and ?s1 = "handleGenerateClick s0"
  let ?s = "run (settlements ?k sched) ?s1"
  note I1 = inv_click[OF assms]
  from inv_run[OF I1] obtain n where I: "batchInv img (requests s0) ?k n ?s" by blast
  have a: "\<forall>d\<in>set DECADES. map_of (generatedImages ?s1) d = Some pendingImage"
    by (simp add: click_state[OF assms] map_of_const)
  have b: "batchFinished ?k ?s \<longrightarrow>
      (\<forall>d\<in>set DECADES. terminalAt (generatedImages ?s) d) \<and> \<not> isLoading ?s \<and> appState ?s = ResultsShown"
    using inv_terminal[OF I] I by (auto simp: batchInv_def)
  have c: "\<not> batchFinished ?k ?s \<longrightarrow>
      (\<exists>w<concurrencyLimit. \<exists>d. workers (batches ?s ! ?k) ! w = Awaiting d)"
    using inv_progress[OF I] by blast
  have d: "settlesPending ?k sched ?s1 \<longrightarrow>
      length sched \<le> length DECADES \<and> (length sched = length DECADES \<longleftrightarrow> batchFinished ?k ?s)"
  proof
    assume "settlesPending ?k sched ?s1"
    from work_run[OF I1 this] click_work[OF assms]
    have "pendingWork ?k ?s + length sched = 6" by simp
    with inv_finished[OF I] show "length sched \<le> length DECADES \<and>
        (length sched = length DECADES \<longleftrightarrow> batchFinished ?k ?s)"
      by (auto simp: DECADES_length)
  qed
  have e: "\<not> batchFinished ?k ?s1 \<and> isLoading ?s1 \<and> appState ?s1 = Generating"
    by (simp add: click_state[OF assms] batchFinished_def)
  have f: "isLoading ?s = (\<not> batchFinished ?k ?s)"
    "appState ?s = (if batchFinished ?k ?s then ResultsShown else Generating)"
    using I by (simp_all add: batchInv_def)
  then have g: "appState ?s = ResultsShown \<longleftrightarrow> batchFinished ?k ?s"
    by simp
  from a b c d e f g show ?thesis
    unfolding Let_def by blast
qed

theorem batch_all_terminal_witness:
  "uploadedImage uploaded = Some ''photo'' \<and> truthy ''photo''
   \<and> settlesPending 0 sampleSchedule midBatch
   \<and> length sampleSchedule = length DECADES
   \<and> map_of (generatedImages midBatch) ''1960s'' = Some pendingImage
   \<and> batchFinished 0 afterBatch
   \<and> terminalAt (generatedImages afterBatch) ''1960s''
   \<and> map_of (generatedImages afterBatch) ''1960s'' = Some (errorImage ''timeout'')
   \<and> map_of (generatedImages afterBatch) ''1970s'' = Some (doneImage ''c'')
   \<and> \<not> batchFinished 0 midBatch \<and> isLoading midBatch \<and> appState midBatch = Generating
   \<and> \<not> isLoading afterBatch \<and> appState afterBatch = ResultsShown"
proof -
  have sp: "settlesPending 0 sampleSchedule midBatch"
    unfolding midBatch_eq
    by (simp add: sampleSchedule_def generationSettled_def joinWorkers_def
      resumeWorker_def workerTurn_def setDecade_def callGenerate_def truthy_def Let_def)
  have len: "length sampleSchedule = length DECADES"
    by (simp add: sampleSchedule_def DECADES_def)
  have T: "(\<forall>d\<in>set DECADES. map_of (generatedImages midBatch) d = Some pendingImage) \<and>
     (batchFinished 0 afterBatch \<longrightarrow>
        (\<forall>d\<in>set DECADES. terminalAt (generatedImages afterBatch) d) \<and>
        \<not> isLoading afterBatch \<and> appState afterBatch = ResultsShown) \<and>
     (\<not> batchFinished 0 afterBatch \<longrightarrow>
        (\<exists>w<concurrencyLimit. \<exists>d. workers (batches afterBatch ! 0) ! w = Awaiting d)) \<and>
     (settlesPending 0 sampleSchedule midBatch \<longrightarrow>
        length sampleSchedule \<le> length DECADES \<and>
        (length sampleSchedule = length DECADES \<longleftrightarrow> batchFinished 0 afterBatch)) \<and>
     \<not> batchFinished 0 midBatch \<and> isLoading midBatch \<and> appState midBatch = Generating \<and>
     isLoading afterBatch = (\<not> batchFinished 0 afterBatch) \<and>
     (appState afterBatch = ResultsShown \<longleftrightarrow> batchFinished 0 afterBatch) \<and>
     appState afterBatch = (if batchFinished 0 afterBatch then ResultsShown else Generating)"
    using batch_all_terminal[OF uploaded_image truthy_photo, of sampleSchedule]
    by (simp add: Let_def uploaded_batches midBatch_def afterBatch_def)
  from T sp len have fin: "batchFinished 0 afterBatch" by blast
  with T have all: "\<forall>d\<in>set DECADES. terminalAt (generatedImages afterBatch) d" by blast
  have "''1960s'' \<in> set DECADES" by (simp add: DECADES_def)
  with all have t60: "terminalAt (generatedImages afterBatch) ''1960s''" by blast
  from T have "map_of (generatedImages midBatch) ''1960s'' = Some pendingImage"
    by (simp add: DECADES_def)
  moreover from T have "\<not> batchFinished 0 midBatch" "isLoading midBatch"
    "appState midBatch = Generating"
    by blast+
  moreover from T fin have "\<not> isLoading afterBatch" "appState afterBatch = ResultsShown"
    by blast+
  ultimately show ?thesis
    using sp len fin t60 uploaded_image truthy_photo by (simp add: afterBatch_eq)
qed

text \<open>Claim C3: after the batch has been dispatched, and whatever events follow (its own
  settlements, regenerations, resets, uploads, other batches), the batch processes at most
  \<^verbatim>\<open>concurrencyLimit\<close> \<open>= 2\<close> decades at a time, never the same decade twice at once, and
  its queue is always what is left of \<^verbatim>\<open>DECADES\<close> after the first \<open>n\<close> were popped, the
  decades in process being among those \<open>n\<close>. In a run of the batch alone the calls of the
  Generation Client are those for the first \<open>n\<close> decades, in order, and for all six, each
  once, when the batch has finished.\<close>

theorem batch_concurrency_cap:
  assumes "uploadedImage s0 = Some img" and "truthy img"
  shows "let k = length (batches s0); s1 = handleGenerateClick s0
         in (let b = batches (run es s1) ! k
             in length (awaited b) \<le> concurrencyLimit \<and> distinct (awaited b) \<and>
                (\<exists>n\<le>length DECADES. decadesQueue b = drop n DECADES \<and>
                   set (awaited b) \<subseteq> set (take n DECADES))) \<and>
            (let s = run (settlements k sched) s1
             in (\<exists>n\<le>length DECADES. decadesQueue (batches s ! k) = drop n DECADES \<and>
                   requests s = requests s0 @ map (\<lambda>d. (img, prompt d)) (take n DECADES)) \<and>
                (batchFinished k s \<longrightarrow>
                   requests s = requests s0 @ map (\<lambda>d. (img, prompt d)) DECADES))"
proof -
  let ?k = "length (batches s0)" and ?s1 = "handleGenerateClick s0"
  let ?s = "run (settlements ?k sched) ?s1"
  let ?b = "batches (run es ?s1) ! ?k"
  note I1 = inv_click[OF assms]
  then have "?k < length (batches ?s1)" "batchShape 2 (batches ?s1 ! ?k)"
    by (simp_all add: batchInv_def)
  from shape_run[OF this, of es] obtain m where S: "batchShape m ?b" by blast
  then have m: "m \<le> length DECADES" "decadesQueue ?b = drop m DECADES"
    by (simp_all add: batchShape_def DECADES_length)
  from shape_awaited[OF S] m
  have a: "length (awaited ?b) \<le> concurrencyLimit \<and> distinct (awaited ?b) \<and>
     (\<exists>n\<le>length DECADES. decadesQueue ?b = drop n DECADES \<and> set (awaited ?b) \<subseteq> set (take n DECADES))"
    by (auto simp: concurrencyLimit_def)
  from inv_run[OF I1] obtain n where I: "batchInv img (requests s0) ?k n ?s" by blast
  then have n: "n \<le> length DECADES" "decadesQueue (batches ?s ! ?k) = drop n DECADES"
    "requests ?s = requests s0 @ map (\<lambda>d. (img, prompt d)) (take n DECADES)"
    by (simp_all add: batchInv_def batchShape_def DECADES_length)
  then have b: "\<exists>n\<le>length DECADES. decadesQueue (batches ?s ! ?k) = drop n DECADES \<and>
      requests ?s = requests s0 @ map (\<lambda>d. (img, prompt d)) (take n DECADES)"
    by blast
  have c: "batchFinished ?k ?s \<longrightarrow> requests ?s = requests s0 @ map (\<lambda>d. (img, prompt d)) DECADES"
  proof
    assume "batchFinished ?k ?s"
    with I have "Finished \<in> set (workers (batches ?s ! ?k))"
      by (auto simp: batchInv_def batchShape_def batchFinished_def)
    with I have "n = 6" by (simp add: batchInv_def batchShape_def)
    with n show "requests ?s = requests s0 @ map (\<lambda>d. (img, prompt d)) DECADES"
      by (simp add: DECADES_length)
  qed
  from a b c show ?thesis
    unfolding Let_def by blast
qed

theorem batch_concurrency_cap_witness:
  "uploadedImage uploaded = Some ''photo'' \<and> truthy ''photo''
   \<and> length (awaited (batches (run mixedTrace midBatch) ! 0)) \<le> concurrencyLimit
   \<and> awaited (batches (run mixedTrace midBatch) ! 0) = [''1970s'', ''1980s'']
   \<and> decadesQueue (batches (run mixedTrace midBatch) ! 0) = [''1990s'', ''2000s'']
   \<and> batchFinished 0 afterBatch
   \<and> requests afterBatch = map (\<lambda>d. (''photo'', prompt d)) DECADES"
proof -
  have T: "(length (awaited (batches (run mixedTrace midBatch) ! 0)) \<le> concurrencyLimit \<and>
       distinct (awaited (batches (run mixedTrace midBatch) ! 0)) \<and>
       (\<exists>n\<le>length DECADES. decadesQueue (batches (run mixedTrace midBatch) ! 0) = drop n DECADES \<and>
          set (awaited (batches (run mixedTrace midBatch) ! 0)) \<subseteq> set (take n DECADES))) \<and>
     (\<exists>n\<le>length DECADES. decadesQueue (batches afterBatch ! 0) = drop n DECADES \<and>
         requests afterBatch = [] @ map (\<lambda>d. (''photo'', prompt d)) (take n DECADES)) \<and>
     (batchFinished 0 afterBatch \<longrightarrow>
         requests afterBatch = [] @ map (\<lambda>d. (''photo'', prompt d)) DECADES)"
    using batch_concurrency_cap[OF uploaded_image truthy_photo, of mixedTrace sampleSchedule]
    by (simp add: Let_def uploaded_batches midBatch_def afterBatch_def uploaded_def
        fileLoaded_def initialApp_def)
  have fin: "batchFinished 0 afterBatch"
    by (simp add: afterBatch_eq batchFinished_def)
  have b: "batches (run mixedTrace midBatch) ! 0 =
      \<lparr>image = ''photo'', decadesQueue = [''1990s'', ''2000s''],
        workers = [Awaiting ''1970s'', Awaiting ''1980s'']\<rparr>"
    unfolding midBatch_eq
    by (simp add: mixedTrace_def run_def generationSettled_def joinWorkers_def
      resumeWorker_def workerTurn_def setDecade_def callGenerate_def settledImage_def
      handleRegenerateDecade_def isPending_def handleReset_def fileLoaded_def
      handleGenerateClick_def startWorker_def concurrencyLimit_def numeral_2_eq_2
      truthy_def DECADES_def Let_def doneImage_def)
  from T fin have "requests afterBatch = map (\<lambda>d. (''photo'', prompt d)) DECADES" by simp
  moreover from T have "length (awaited (batches (run mixedTrace midBatch) ! 0)) \<le> concurrencyLimit"
    by blast
  ultimately show ?thesis
    using fin uploaded_image truthy_photo by (simp add: b awaited_def)
qed

section \<open>Single-item regeneration\<close>

text \<open>Claim C5: \<^verbatim>\<open>handleRegenerateDecade\<close> for a decade whose status is \<open>Pending\<close> changes
  nothing: the state after it is the state before it, so the result store, the calls made
  to the Generation Client and every suspended handler are as they were.\<close>

theorem regenerate_pending_noop:
  "map_of (generatedImages s) d = Some g \<Longrightarrow> status g = Pending \<Longrightarrow>
    handleRegenerateDecade d s = s"
  by (simp add: handleRegenerateDecade_def isPending_def split: option.splits)

theorem regenerate_pending_noop_witness:
  "map_of (generatedImages midBatch) ''1950s'' = Some pendingImage
   \<and> status pendingImage = Pending
   \<and> handleRegenerateDecade ''1950s'' midBatch = midBatch"
proof -
  have a: "map_of (generatedImages midBatch) ''1950s'' = Some pendingImage"
    by (simp add: midBatch_eq DECADES_def)
  have b: "status pendingImage = Pending"
    by (simp add: pendingImage_def)
  from regenerate_pending_noop[OF a b] a b show ?thesis by simp
qed

text \<open>Claim C6: with an image uploaded, \<^verbatim>\<open>handleRegenerateDecade\<close> for a decade \<open>d\<close> that
  is not \<open>Pending\<close> sets the entry of \<open>d\<close> to \<open>Pending\<close> and calls the Generation Client
  once; when the call settles the entry becomes \<open>Done\<close> with the image, or \<open>Error\<close> with
  the message. After either step the entries of all other decades are the ones from before
  the regeneration, in the same order.\<close>

theorem regenerate_frame:
  assumes "uploadedImage s = Some img" and "truthy img"
    and "\<not> isPending (generatedImages s) d"
  shows "let s1 = handleRegenerateDecade d s;
             s2 = regenerationSettled (length (regenerations s)) r s1
         in map_of (generatedImages s1) d = Some \<lparr>status = Pending, url = None, error = None\<rparr> \<and>
            map_of (generatedImages s2) d =
              Some (case r of
                      Inr resultUrl \<Rightarrow> \<lparr>status = Done, url = Some resultUrl, error = None\<rparr>
                    | Inl err \<Rightarrow> \<lparr>status = Error, url = None, error = Some (errorMessage err)\<rparr>) \<and>
            (\<forall>d'. d' \<noteq> d \<longrightarrow>
               map_of (generatedImages s1) d' = map_of (generatedImages s) d' \<and>
               map_of (generatedImages s2) d' = map_of (generatedImages s) d') \<and>
            filter (\<lambda>p. fst p \<noteq> d) (generatedImages s1) = filter (\<lambda>p. fst p \<noteq> d) (generatedImages s) \<and>
            filter (\<lambda>p. fst p \<noteq> d) (generatedImages s2) = filter (\<lambda>p. fst p \<noteq> d) (generatedImages s) \<and>
            requests s2 = requests s @ [(img, prompt d)]"
  using assms
  by (cases r)
    (simp_all add: handleRegenerateDecade_def regenerationSettled_def setDecade_def
      callGenerate_def settledImage_def pendingImage_def doneImage_def errorImage_def Let_def
      AList.update_conv' filter_update_other)

theorem regenerate_frame_witness:
  "uploadedImage afterBatch = Some ''photo'' \<and> truthy ''photo''
   \<and> \<not> isPending (generatedImages afterBatch) ''1960s''
   \<and> generatedImages (handleRegenerateDecade ''1960s'' afterBatch) =
       [(''1950s'', doneImage ''a''), (''1960s'', pendingImage),
        (''1970s'', doneImage ''c''), (''1980s'', errorImage ''An unknown error occurred.''),
        (''1990s'', doneImage ''f''), (''2000s'', doneImage ''e'')]
   \<and> map_of (generatedImages (regenerationSettled 0 (Inr ''g'')
         (handleRegenerateDecade ''1960s'' afterBatch))) ''1960s'' = Some (doneImage ''g'')
   \<and> filter (\<lambda>p. fst p \<noteq> ''1960s'') (generatedImages (regenerationSettled 0 (Inr ''g'')
         (handleRegenerateDecade ''1960s'' afterBatch))) =
       [(''1950s'', doneImage ''a''),
        (''1970s'', doneImage ''c''), (''1980s'', errorImage ''An unknown error occurred.''),
        (''1990s'', doneImage ''f''), (''2000s'', doneImage ''e'')]"
proof -
  have a: "uploadedImage afterBatch = Some ''photo''"
    by (simp add: afterBatch_eq)
  have c: "\<not> isPending (generatedImages afterBatch) ''1960s''"
    by (simp add: afterBatch_eq isPending_def errorImage_def)
  have r: "regenerations afterBatch = []"
    by (simp add: afterBatch_eq)
  have g: "generatedImages (handleRegenerateDecade ''1960s'' afterBatch) =
       [(''1950s'', doneImage ''a''), (''1960s'', pendingImage),
        (''1970s'', doneImage ''c''), (''1980s'', errorImage ''An unknown error occurred.''),
        (''1990s'', doneImage ''f''), (''2000s'', doneImage ''e'')]"
    by (simp add: afterBatch_eq handleRegenerateDecade_def isPending_def errorImage_def
        setDecade_def callGenerate_def truthy_def Let_def)
  from regenerate_frame[OF a truthy_photo c, of "Inr ''g''"] a c truthy_photo g show ?thesis
    by (simp add: Let_def r doneImage_def)
qed

text \<open>Claim C10: with no uploaded image (\<^verbatim>\<open>uploadedImage\<close> is \<^verbatim>\<open>null\<close>), both
  \<^verbatim>\<open>handleGenerateClick\<close> and \<^verbatim>\<open>handleRegenerateDecade\<close> return at once: the whole
  state is unchanged, so no item becomes \<open>Pending\<close>, the list of calls of the Generation
  Client does not grow, and the result store and the app state are as before.\<close>

theorem no_image_noop:
  "uploadedImage s = None \<Longrightarrow> handleGenerateClick s = s \<and> handleRegenerateDecade d s = s"
  by (simp add: handleGenerateClick_def handleRegenerateDecade_def)

theorem no_image_noop_witness:
  "uploadedImage initialApp = None
   \<and> handleGenerateClick initialApp = initialApp
   \<and> handleRegenerateDecade ''1950s'' initialApp = initialApp"
  using no_image_noop [of initialApp "''1950s''"] by (simp add: initialApp_def)

section \<open>The album download\<close>

text \<open>Claim C4: when fewer entries of the result store than there are decades (six) are
  \<open>Done\<close> with an image URL, \<^verbatim>\<open>handleDownloadAlbum\<close> only tells the user to wait: the
  state after it is the state before it with the message added to the alerts and
  \<^verbatim>\<open>isDownloading\<close> false. No call of \<^verbatim>\<open>createAlbumPage\<close> is started or awaited, nothing
  is drawn or downloaded, and the result store is untouched, whether or not a canvas context
  would have been available.\<close>

theorem album_blocked:
  assumes "length (filter (\<lambda>(d, g). doneWithUrl g) (generatedImages s)) < length DECADES"
  shows "handleDownloadAlbum ctx s =
      s\<lparr>alerts := alerts s @
           [''Please wait for all images to finish generating before downloading the album.''],
        isDownloading := False\<rparr>"
proof -
  from assms albumImageData_length[of "generatedImages s"]
  have "length (albumImageData (generatedImages s)) < length DECADES" by simp
  then show ?thesis
    by (simp add: handleDownloadAlbum_def Let_def)
qed

theorem album_blocked_witness:
  "length (filter (\<lambda>(d, g). doneWithUrl g) (generatedImages afterBatch)) = 4
   \<and> length DECADES = 6
   \<and> handleDownloadAlbum True afterBatch =
       afterBatch\<lparr>alerts :=
         [''Please wait for all images to finish generating before downloading the album.'']\<rparr>
   \<and> albums (handleDownloadAlbum True afterBatch) = []
   \<and> downloads (handleDownloadAlbum True afterBatch) = []"
proof -
  have n: "length (filter (\<lambda>(d, g). doneWithUrl g) (generatedImages afterBatch)) = 4"
    by (simp add: afterBatch_eq doneWithUrl_def doneImage_def errorImage_def truthy_def)
  then have c: "length (filter (\<lambda>(d, g). doneWithUrl g) (generatedImages afterBatch)) < length DECADES"
    by (simp add: DECADES_length)
  from album_blocked[OF c, of True] n show ?thesis
    by (simp add: DECADES_length) (simp add: afterBatch_eq)
qed

text \<open>Claim C7: when the image loads of a pending \<^verbatim>\<open>createAlbumPage\<close> call settle and one
  of them failed, \<^verbatim>\<open>createAlbumPage\<close> rejects: there is no page, nothing is downloaded and
  the user gets the generic failure notice. When all loaded, the page is drawn and
  downloaded. Either way the result store is left as it was and \<^verbatim>\<open>isDownloading\<close> is
  false afterwards. The first part of \<^verbatim>\<open>handleDownloadAlbum\<close>, in any state \<open>t\<close>, leaves the
  result store as it was too, and leaves \<^verbatim>\<open>isDownloading\<close> false unless it has started a
  \<^verbatim>\<open>createAlbumPage\<close> call that is still pending.\<close>

theorem album_decode_failure:
  assumes "j < length (albums s)" and "albums s ! j = AlbumLoading imageData"
    and "length loads = length imageData"
  shows "let s' = imagesSettled j loads s
         in (False \<in> set loads \<longrightarrow>
               (\<exists>err. createAlbumPage True loads imageData = Inl err) \<and>
               downloads s' = downloads s \<and>
               alerts s' = alerts s @
                 [''Sorry, there was an error creating your album. Please try again.'']) \<and>
            (False \<notin> set loads \<longrightarrow>
               createAlbumPage True loads imageData = Inr (drawPolaroids (map fst imageData)) \<and>
               downloads s' = downloads s @
                 [AlbumLink (drawPolaroids (map fst imageData)) ''past-forward-album.jpg'']) \<and>
            generatedImages s' = generatedImages s \<and>
            isDownloading s' = False \<and>
            generatedImages (handleDownloadAlbum ctx t) = generatedImages t \<and>
            (albums (handleDownloadAlbum ctx t) = albums t \<longrightarrow>
               isDownloading (handleDownloadAlbum ctx t) = False)"
  using assms
  by (simp add: imagesSettled_def createAlbumPage_cases albumFailed_def handleDownloadAlbum_def
      Let_def)

theorem album_decode_failure_witness:
  "albums albumRequested ! 0 = AlbumLoading [(''1950s'', ''a''), (''1960s'', ''b''),
       (''1970s'', ''c''), (''1980s'', ''d''), (''1990s'', ''e''), (''2000s'', ''f'')]
   \<and> isDownloading albumRequested
   \<and> imagesSettled 0 sampleLoads albumRequested =
       allDone\<lparr>alerts := [''Sorry, there was an error creating your album. Please try again.''],
         albums := [AlbumSettled]\<rparr>
   \<and> isDownloading (imagesSettled 0 (replicate 6 True) albumRequested) = False
   \<and> generatedImages (imagesSettled 0 (replicate 6 True) albumRequested) = generatedImages allDone"
proof -
  let ?data = "[(''1950s'', ''a''), (''1960s'', ''b''), (''1970s'', ''c''), (''1980s'', ''d''),
    (''1990s'', ''e''), (''2000s'', ''f'')]"
  have j: "0 < length (albums albumRequested)"
    and a: "albums albumRequested ! 0 = AlbumLoading ?data"
    by (simp_all add: albumRequested_eq)
  have l: "length sampleLoads = length ?data" and l': "length (replicate 6 True) = length ?data"
    by (simp_all add: sampleLoads_def)
  have f: "False \<in> set sampleLoads"
    by (simp add: sampleLoads_def)
  have d: "isDownloading albumRequested"
    by (simp add: albumRequested_eq)
  have e: "imagesSettled 0 sampleLoads albumRequested =
       allDone\<lparr>alerts := [''Sorry, there was an error creating your album. Please try again.''],
         albums := [AlbumSettled]\<rparr>"
    by (simp add: albumRequested_eq imagesSettled_def createAlbumPage_cases sampleLoads_def
        albumFailed_def allDone_eq)
  from album_decode_failure[OF j a l'] album_decode_failure[OF j a l] a d e f show ?thesis
    by (simp add: Let_def)
qed

text \<open>Claim C8: \<^verbatim>\<open>createAlbumPage\<close> draws one card per entry of its input. The entry at
  position \<open>i\<close> of the enumeration order gets the caption of its key and the cell in row
  \<open>i div 2\<close> and column \<open>i mod 2\<close> (inside the grid of 2 columns and 3 rows when there are at
  most six entries), and it is drawn at position \<open>n - 1 - i\<close> of the \<open>n\<close> cards: the cards
  are drawn in the order \<open>n - 1, ..., 0\<close> of their indices, the last cell first, so that
  an earlier entry is drawn after, and over, a later one. The card is drawn where that cell
  is: its left edge is the cell's left edge plus half of what the cell is wider than the
  card, and for the six positions of the grid (\<open>i < 6\<close>) its top edge is the double nearest
  to the cell's top edge plus half of what the cell is higher than the card, and the card's
  rectangle lies inside the rectangle of cell (\<open>i div 2\<close>, \<open>i mod 2\<close>). The cells start at
  100 and 1290 from the left and at 400, 1436 and 2472 from the top, and are 1090 by 936.\<close>

theorem album_grid_layout:
  "length (drawPolaroids decades) = length decades \<and>
   map caption (drawPolaroids decades) = rev decades \<and>
   map cellIndex (drawPolaroids decades) = rev [0..<length decades] \<and>
   (\<forall>i<length decades.
      caption (drawPolaroids decades ! (length decades - 1 - i)) = decades ! i \<and>
      cellIndex (drawPolaroids decades ! (length decades - 1 - i)) = i \<and>
      cellRow (drawPolaroids decades ! (length decades - 1 - i)) = i div 2 \<and>
      cellCol (drawPolaroids decades ! (length decades - 1 - i)) = i mod 2 \<and>
      cellCol (drawPolaroids decades ! (length decades - 1 - i)) < gridCols \<and>
      (length decades \<le> 6 \<longrightarrow>
         cellRow (drawPolaroids decades ! (length decades - 1 - i)) < gridRows) \<and>
      cardX (drawPolaroids decades ! (length decades - 1 - i)) =
        cellLeft (i mod 2) +
          (cellWidth - cardWidth (drawPolaroids decades ! (length decades - 1 - i))) / 2 \<and>
      (i < 6 \<longrightarrow>
         cardY (drawPolaroids decades ! (length decades - 1 - i)) =
           fl (cellTop (i div 2) +
             (cellHeight - cardHeight (drawPolaroids decades ! (length decades - 1 - i))) / 2) \<and>
         cardInCell (drawPolaroids decades ! (length decades - 1 - i)) (i div 2) (i mod 2))) \<and>
   cellLeft 0 = 100 \<and> cellLeft 1 = 1290 \<and>
   cellTop 0 = 400 \<and> cellTop 1 = 1436 \<and> cellTop 2 = 2472 \<and>
   cellWidth = 1090 \<and> cellHeight = 936 \<and>
   createAlbumPage True (replicate (length imageData) True) imageData =
     Inr (drawPolaroids (map fst imageData))"
proof -
  let ?n = "length decades"
  have a: "length (drawPolaroids decades) = ?n"
    by (simp add: drawPolaroids_def)
  have "map caption (drawPolaroids decades) = map snd (enumerate 0 (rev decades))"
    by (simp add: drawPolaroids_def drawPolaroid_def Let_def case_prod_unfold comp_def)
  then have b: "map caption (drawPolaroids decades) = rev decades"
    by simp
  note c = drawPolaroids_index[of decades]
  have d: "createAlbumPage True (replicate (length imageData) True) imageData =
      Inr (drawPolaroids (map fst imageData))"
    by (simp add: createAlbumPage_cases)
  have e: "caption (drawPolaroids decades ! (?n - 1 - i)) = decades ! i \<and>
      cellIndex (drawPolaroids decades ! (?n - 1 - i)) = i \<and>
      cellRow (drawPolaroids decades ! (?n - 1 - i)) = i div 2 \<and>
      cellCol (drawPolaroids decades ! (?n - 1 - i)) = i mod 2 \<and>
      cellCol (drawPolaroids decades ! (?n - 1 - i)) < gridCols \<and>
      (?n \<le> 6 \<longrightarrow> cellRow (drawPolaroids decades ! (?n - 1 - i)) < gridRows) \<and>
      cardX (drawPolaroids decades ! (?n - 1 - i)) =
        cellLeft (i mod 2) + (cellWidth - cardWidth (drawPolaroids decades ! (?n - 1 - i))) / 2 \<and>
      (i < 6 \<longrightarrow>
         cardY (drawPolaroids decades ! (?n - 1 - i)) =
           fl (cellTop (i div 2) +
             (cellHeight - cardHeight (drawPolaroids decades ! (?n - 1 - i))) / 2) \<and>
         cardInCell (drawPolaroids decades ! (?n - 1 - i)) (i div 2) (i mod 2))"
    if i: "i < ?n" for i
  proof -
    let ?p = "drawPolaroids decades ! (?n - 1 - i)"
    from i have j: "?n - 1 - (?n - 1 - i) = i" by simp
    note p = drawPolaroids_nth[OF i]
    from p j have labels: "caption ?p = decades ! i" "cellIndex ?p = i"
      "cellRow ?p = i div 2" "cellCol ?p = i mod 2" "cellCol ?p < gridCols"
      by (simp_all add: drawPolaroid_def Let_def gridCols_def)
    have rows: "cellRow ?p < gridRows" if "?n \<le> 6"
    proof -
      from that i have "i div 2 < 3" by simp
      with labels(3) show ?thesis by (simp add: gridRows_def)
    qed
    have size: "cardWidth ?p = polaroidWidth" "cardHeight ?p = polaroidHeight"
      unfolding p by (simp_all add: drawPolaroid_def Let_def)
    have x: "cardX ?p = cellLeft (i mod 2) + (cellWidth - cardWidth ?p) / 2"
      unfolding size unfolding p using drawPolaroid_x[of ?n "?n - 1 - i" "decades ! i"]
      by (simp only: j)
    have y: "cardY ?p = fl (cellTop (i div 2) + (cellHeight - cardHeight ?p) / 2)
        \<and> cardInCell ?p (i div 2) (i mod 2)" if "i < 6"
    proof -
      from that have r: "(?n - 1 - (?n - 1 - i)) div 2 < 3"
        unfolding j by simp
      from drawPolaroid_y[OF r, of "decades ! i"] drawPolaroid_in_cell[OF r, of "decades ! i"]
      show ?thesis
        unfolding size unfolding p by (simp only: j simp_thms)
    qed
    from labels rows x y show ?thesis by blast
  qed
  have f: "cellLeft 0 = 100 \<and> cellLeft 1 = 1290 \<and>
      cellTop 0 = 400 \<and> cellTop 1 = 1436 \<and> cellTop 2 = 2472 \<and>
      cellWidth = 1090 \<and> cellHeight = 936"
    by (simp only: cellLeft_eq cellTop_eq cellWidth_eq cellHeight_eq simp_thms)
  from a b c d e f show ?thesis by blast
qed

theorem album_grid_layout_witness:
  "(3::nat) < length DECADES
   \<and> caption (drawPolaroids DECADES ! 2) = ''1980s''
   \<and> cellRow (drawPolaroids DECADES ! 2) = 1
   \<and> cellCol (drawPolaroids DECADES ! 2) = 1
   \<and> cardInCell (drawPolaroids DECADES ! 2) 1 1
   \<and> cardX (drawPolaroids DECADES ! 2) = 1484
   \<and> cardY (drawPolaroids DECADES ! 2) = 6521423366665011 / 4398046511104
   \<and> map caption (drawPolaroids DECADES) =
       [''2000s'', ''1990s'', ''1980s'', ''1970s'', ''1960s'', ''1950s'']
   \<and> map cellIndex (drawPolaroids DECADES) = [5, 4, 3, 2, 1, 0]
   \<and> map cardX (drawPolaroids DECADES) = [1484, 294, 1484, 294, 1484, 294]
   \<and> map cardY (drawPolaroids DECADES) =
       [2769449888042189 / 1099511627776, 2769449888042189 / 1099511627776,
        6521423366665011 / 4398046511104, 6521423366665011 / 4398046511104,
        7860188724645069 / 17592186044416, 7860188724645069 / 17592186044416]"
proof -
  have l: "(3::nat) < length DECADES"
    by (simp add: DECADES_length)
  have idx: "length DECADES - 1 - 3 = 2"
    by (simp add: DECADES_length)
  have dm: "(3::nat) div 2 = 1" "(3::nat) mod 2 = 1"
    by simp_all
  from album_grid_layout[of DECADES] l
  have "caption (drawPolaroids DECADES ! (length DECADES - 1 - 3)) = DECADES ! 3"
    "cellRow (drawPolaroids DECADES ! (length DECADES - 1 - 3)) = 3 div 2"
    "cellCol (drawPolaroids DECADES ! (length DECADES - 1 - 3)) = 3 mod 2"
    "map caption (drawPolaroids DECADES) = rev DECADES"
    "(3::nat) < 6 \<longrightarrow>
       cardInCell (drawPolaroids DECADES ! (length DECADES - 1 - 3)) (3 div 2) (3 mod 2)"
    by blast+
  then have "caption (drawPolaroids DECADES ! 2) = ''1980s''"
    "cellRow (drawPolaroids DECADES ! 2) = 1"
    "cellCol (drawPolaroids DECADES ! 2) = 1"
    "map caption (drawPolaroids DECADES) =
       [''2000s'', ''1990s'', ''1980s'', ''1970s'', ''1960s'', ''1950s'']"
    "cardInCell (drawPolaroids DECADES ! 2) 1 1"
    unfolding idx dm by (simp_all add: DECADES_def)
  moreover have "map cellIndex (drawPolaroids DECADES) = [5, 4, 3, 2, 1, 0]"
    "map cardX (drawPolaroids DECADES) = [1484, 294, 1484, 294, 1484, 294]"
    "map cardY (drawPolaroids DECADES) =
       [2769449888042189 / 1099511627776, 2769449888042189 / 1099511627776,
        6521423366665011 / 4398046511104, 6521423366665011 / 4398046511104,
        7860188724645069 / 17592186044416, 7860188724645069 / 17592186044416]"
    "cardX (drawPolaroids DECADES ! 2) = 1484"
    "cardY (drawPolaroids DECADES ! 2) = 6521423366665011 / 4398046511104"
    by (simp_all add: layout_DECADES)
  ultimately show ?thesis
    using l by simp
qed

text \<open>Claim C9: the size of the polaroid card, in the binary64 arithmetic JavaScript
  computes it in, for the canvas of 2480 by 3508, the margin 300, the padding 100 and the
  grid of 2 by 3. Every card drawn has the one size \<^verbatim>\<open>polaroidWidth\<close> by
  \<^verbatim>\<open>polaroidHeight\<close>; the cell is 1090 by 936, the card 702 wide and the double nearest to
  842.4 high. The height is 1.2 times the width: it is the product as the program computes
  it, in either order, and the double nearest to the exact product. The width is at most 0.9
  times the cell width and the height at most 0.9 times the cell height, both with the
  product computed by the program and with the exact product.\<close>

theorem polaroid_fits_cell:
  "(\<forall>p\<in>set (drawPolaroids decades).
      cardWidth p = polaroidWidth \<and> cardHeight p = polaroidHeight) \<and>
   polaroidHeight = fmul polaroidAspectRatio polaroidWidth \<and>
   polaroidHeight = fmul polaroidWidth polaroidAspectRatio \<and>
   polaroidHeight = fl (12 / 10 * polaroidWidth) \<and>
   polaroidWidth \<le> fmul (fl (9 / 10)) cellWidth \<and>
   polaroidHeight \<le> fmul (fl (9 / 10)) cellHeight \<and>
   polaroidWidth \<le> 9 / 10 * cellWidth \<and>
   polaroidHeight \<le> 9 / 10 * cellHeight \<and>
   cellWidth = 1090 \<and> cellHeight = 936 \<and>
   polaroidWidth = 702 \<and> polaroidHeight = 7409828761908019 / 8796093022208"
proof -
  have "\<forall>p\<in>set (drawPolaroids decades).
      cardWidth p = polaroidWidth \<and> cardHeight p = polaroidHeight"
    by (auto simp: drawPolaroids_def drawPolaroid_def Let_def)
  moreover have "polaroidHeight = fl (12 / 10 * polaroidWidth)"
    unfolding polaroidWidth_eq polaroidHeight_eq by (rule nearest_height[symmetric])
  moreover have "polaroidHeight = fmul polaroidAspectRatio polaroidWidth \<and>
   polaroidHeight = fmul polaroidWidth polaroidAspectRatio \<and>
   polaroidWidth \<le> fmul (fl (9 / 10)) cellWidth \<and>
   polaroidHeight \<le> fmul (fl (9 / 10)) cellHeight \<and>
   polaroidWidth \<le> 9 / 10 * cellWidth \<and>
   polaroidHeight \<le> 9 / 10 * cellHeight \<and>
   cellWidth = 1090 \<and> cellHeight = 936 \<and>
   polaroidWidth = 702 \<and> polaroidHeight = 7409828761908019 / 8796093022208"
    unfolding polaroidWidth_eq polaroidHeight_eq cellWidth_eq cellHeight_eq literal_0_9
      polaroidAspectRatio_eq ratio_left ratio_right max_w max_h
    by simp
  ultimately show ?thesis by blast
qed

theorem polaroid_fits_cell_witness:
  "drawPolaroids DECADES ! 0 \<in> set (drawPolaroids DECADES)
   \<and> cardWidth (drawPolaroids DECADES ! 0) = 702
   \<and> cardHeight (drawPolaroids DECADES ! 0) = 7409828761908019 / 8796093022208
   \<and> cardHeight (drawPolaroids DECADES ! 0) = fmul (cardWidth (drawPolaroids DECADES ! 0)) (fl (12 / 10))"
proof -
  have m: "drawPolaroids DECADES ! 0 \<in> set (drawPolaroids DECADES)"
    by (simp add: layout_DECADES)
  from polaroid_fits_cell[of DECADES] m
  have "cardWidth (drawPolaroids DECADES ! 0) = polaroidWidth"
    "cardHeight (drawPolaroids DECADES ! 0) = polaroidHeight"
    "polaroidHeight = fmul polaroidWidth polaroidAspectRatio"
    "polaroidWidth = 702" "polaroidHeight = 7409828761908019 / 8796093022208"
    by blast+
  with m show ?thesis
    by (simp add: polaroidAspectRatio_def)
qed

end
